theory Spec2Isabelle
  imports Main
begin

section \<open>JavaScript values\<close>

text \<open>
  The values that flow through \<open>src/index.js\<close>: \<open>undefined\<close>, \<open>null\<close>, booleans,
  strings and error objects. A reply line is a \<open>string\<close>; one \<open>char\<close> stands for one code
  unit of the JavaScript string (SMTP replies are ASCII). \<open>Lines ls\<close> is a received chunk,
  given by the complete lines that the channel's \<open>LineBuffer\<close> (an external package)
  yields for it.
\<close>

datatype js_value = Undefined | Null | Bool bool | Str string
  | Error string | TypeError string | Lines "string list"

text \<open>The truthiness test of \<open>if (x)\<close> and \<open>x ? a : b\<close>.\<close>

fun truthy :: "js_value \<Rightarrow> bool" where
  "truthy Undefined = False"
| "truthy Null = False"
| "truthy (Bool b) = b"
| "truthy (Str s) = (s \<noteq> [])"
| "truthy (Error m) = True"
| "truthy (TypeError m) = True"
| "truthy (Lines ls) = True"

text \<open>\<open>String.prototype.substr(start, length)\<close> for non-negative arguments.\<close>

definition substr :: "string \<Rightarrow> nat \<Rightarrow> nat \<Rightarrow> string" where
  "substr s start len = take len (drop start s)"

text \<open>
  \<open>String.prototype.charAt(i)\<close>: the one-character string at index \<open>i\<close>, the empty
  string when \<open>i\<close> is out of range.
\<close>

definition charAt :: "string \<Rightarrow> nat \<Rightarrow> string" where
  "charAt s i = (if i < length s then [s ! i] else [])"

section \<open>Reply lines\<close>

text \<open>\<open>parseReplyCode(line) { return line ? line.substr(0, 3) : null; }\<close>\<close>

definition parseReplyCode :: "string \<Rightarrow> js_value" where
  "parseReplyCode line = (if truthy (Str line) then Str (substr line 0 3) else Null)"

text \<open>\<open>isLastReply(line) { return line ? line.charAt(3) === ' ' : null; }\<close>\<close>

definition isLastReply :: "string \<Rightarrow> js_value" where
  "isLastReply line = (if truthy (Str line) then Bool (charAt line 3 = '' '') else Null)"

section \<open>Sockets as event emitters\<close>

text \<open>
  The five socket events the channel listens to. A listener is one of the functions the
  source registers: the closures \<open>onClose\<close> and \<open>onError\<close> of one \<open>_resolveCommand\<close>
  call (identified by the promise the call settles), the bound methods \<open>_onClose\<close>,
  \<open>_onReceive\<close>, \<open>_onEnd\<close>, \<open>_onError\<close>, \<open>_onTimeout\<close>, the \<open>resolve\<close> function that
  \<open>_closeAsPromised\<close> registers and the \<open>reject\<close> function that
  \<open>_negotiateTLSAsPromised\<close> registers.
\<close>

datatype ev = EvClose | EvData | EvEnd | EvError | EvTimeout

datatype listener =
    CmdOnClose nat | CmdOnError nat
  | OnClose | OnReceive | OnEnd | OnError | OnTimeout
  | PromiseResolve nat | PromiseReject nat

text \<open>A registered listener: the event, the function, and whether it was added by \<open>once\<close>.\<close>

type_synonym entry = "ev \<times> listener \<times> bool"

text \<open>
  The connect listener passed to \<open>_createSocket\<close>: the one of \<open>_connectAsPromised\<close>
  (it captures \<open>options.secure\<close>) or the one of \<open>_negotiateTLSAsPromised\<close> (it captures
  the promise's \<open>resolve\<close>).
\<close>

datatype callback = ConnectCb bool | TlsCb nat

text \<open>
  A socket object: its listeners in registration order, whether \<open>_createSocket\<close> made it
  with \<open>tls\<close> rather than \<open>net\<close>, its connect listener, the socket it wraps
  (\<open>options.socket\<close>), and what has happened to it: the connect listener has fired,
  \<open>destroy()\<close> was called, \<open>'close'\<close> was emitted.
\<close>

record sock =
  lst :: "entry list"
  lib_tls :: bool
  cb :: callback
  base :: "nat option"
  fired :: bool
  destroyed :: bool
  closed :: bool

definition on :: "ev \<Rightarrow> listener \<Rightarrow> sock \<Rightarrow> sock" where
  "on e l k = k\<lparr>lst := lst k @ [(e, l, False)]\<rparr>"

definition once :: "ev \<Rightarrow> listener \<Rightarrow> sock \<Rightarrow> sock" where
  "once e l k = k\<lparr>lst := lst k @ [(e, l, True)]\<rparr>"

fun remove_first :: "('a \<Rightarrow> bool) \<Rightarrow> 'a list \<Rightarrow> 'a list" where
  "remove_first P [] = []"
| "remove_first P (x # xs) = (if P x then xs else x # remove_first P xs)"

definition remove_last :: "('a \<Rightarrow> bool) \<Rightarrow> 'a list \<Rightarrow> 'a list" where
  "remove_last P xs = rev (remove_first P (rev xs))"

text \<open>
  \<open>emitter.removeListener(event, f)\<close> removes one registration of \<open>f\<close>, the most recently
  added; \<open>removeAllListeners(event)\<close> removes every listener of the event.
\<close>

definition removeListener :: "ev \<Rightarrow> listener \<Rightarrow> sock \<Rightarrow> sock" where
  "removeListener e l k = k\<lparr>lst := remove_last (\<lambda>x. fst x = e \<and> fst (snd x) = l) (lst k)\<rparr>"

definition removeAllListeners :: "ev \<Rightarrow> sock \<Rightarrow> sock" where
  "removeAllListeners e k = k\<lparr>lst := filter (\<lambda>x. fst x \<noteq> e) (lst k)\<rparr>"

definition listeners :: "ev \<Rightarrow> sock \<Rightarrow> entry list" where
  "listeners e k = filter (\<lambda>x. fst x = e) (lst k)"

section \<open>The channel\<close>

text \<open>
  A per-line handler \<open>handler(line, {isLast, code})\<close>: it returns normally (\<open>None\<close>) or
  throws a value.
\<close>

type_synonym handler = "string \<Rightarrow> js_value \<Rightarrow> js_value \<Rightarrow> js_value option"

datatype outcome = Resolve js_value | Reject js_value

datatype obs = ObsClose | ObsConnect | ObsEnd | ObsError js_value | ObsReceive
  | ObsReply string | ObsTimeout

text \<open>
  What the channel does to the outside, in order: a promise's \<open>resolve\<close> or \<open>reject\<close>
  function is called, a handler is called, an event is emitted to the channel's observers,
  a socket is destroyed, data is piped to a socket, an exception leaves a listener, the
  promise that a call returned is dropped (the statement that made the call discards it:
  it gets no handler and nothing refers to it).
\<close>

datatype action =
    Settle nat outcome
  | HandlerCall nat string js_value js_value
  | Emit obs
  | Destroy nat
  | Pipe nat string
  | Uncaught js_value
  | Dropped nat

text \<open>
  The promise reactions that \<open>onLine\<close> chains:
  \<open>Promise.resolve().then(() => {if (handler) handler(line, args)})
     .then(() => {if (isLast) resolve(code)}).catch(reject)\<close>.
  \<open>RunHandler\<close> is the first \<open>then\<close>; \<open>ThenResolve\<close> is the second \<open>then\<close> after the
  first fulfilled, \<open>PassReject\<close> the second \<open>then\<close> after the first rejected (it has no
  rejection handler and passes the rejection on); \<open>CatchReject\<close> is the \<open>catch\<close> after a
  rejection, \<open>CatchPass\<close> the \<open>catch\<close> after a fulfilment. Each is one job of the microtask
  queue.
\<close>

datatype job =
    RunHandler nat "handler option" string
  | ThenResolve nat string
  | PassReject nat js_value
  | CatchReject nat js_value
  | CatchPass nat

text \<open>
  The channel object: \<open>_config.secure\<close> (its truthiness), whether the application
  listens to the channel's \<open>'error'\<close> event, \<open>_socket\<close> (\<open>None\<close> is \<open>null\<close>), \<open>_isSecure\<close>,
  the \<open>'line'\<close> listeners of \<open>_receiveBuffer\<close> (the \<open>onLine\<close> closures, each with the promise
  it belongs to and the handler it captured), the socket objects created so far (a socket
  is identified by its index), the number of promises created so far, the microtask queue
  and the actions so far.
\<close>

record channel =
  config_secure :: bool
  error_observed :: bool
  socket :: "nat option"
  is_secure :: bool
  line_listeners :: "(nat \<times> handler option) list"
  sockets :: "sock list"
  promises :: nat
  jobs :: "job list"
  trace :: "action list"

text \<open>The constructor.\<close>

definition init :: "bool \<Rightarrow> bool \<Rightarrow> channel" where
  "init secure observed =
     \<lparr>config_secure = secure, error_observed = observed, socket = None, is_secure = False,
      line_listeners = [], sockets = [], promises = 0, jobs = [], trace = []\<rparr>"

text \<open>\<open>isSecure() { return this._isSecure; }\<close>\<close>

definition isSecure :: "channel \<Rightarrow> bool" where
  "isSecure s = is_secure s"

definition act :: "action \<Rightarrow> channel \<Rightarrow> channel" where
  "act a s = s\<lparr>trace := trace s @ [a]\<rparr>"

definition settle :: "nat \<Rightarrow> outcome \<Rightarrow> channel \<Rightarrow> channel" where
  "settle p out s = act (Settle p out) s"

definition upd_sock :: "nat \<Rightarrow> (sock \<Rightarrow> sock) \<Rightarrow> channel \<Rightarrow> channel" where
  "upd_sock k f s = s\<lparr>sockets := (sockets s)[k := f (sockets s ! k)]\<rparr>"

text \<open>\<open>new Promise(...)\<close>: the promise is identified by its number.\<close>

definition new_promise :: "channel \<Rightarrow> channel" where
  "new_promise s = s\<lparr>promises := Suc (promises s)\<rparr>"

text \<open>
  The calls of a promise's \<open>resolve\<close> and \<open>reject\<close> functions, in order. The first call
  settles the promise; later calls have no effect on it.
\<close>

fun calls_of :: "nat \<Rightarrow> action list \<Rightarrow> outcome list" where
  "calls_of p [] = []"
| "calls_of p (Settle q out # as) = (if q = p then out # calls_of p as else calls_of p as)"
| "calls_of p (a # as) = calls_of p as"

definition calls :: "nat \<Rightarrow> channel \<Rightarrow> outcome list" where
  "calls p s = calls_of p (trace s)"

definition promise_state :: "nat \<Rightarrow> channel \<Rightarrow> outcome option" where
  "promise_state p s = (case calls p s of [] \<Rightarrow> None | out # rest \<Rightarrow> Some out)"

text \<open>
  \<open>_createSocket(config, onConnect)\<close>:
  \<open>let isSecure = this._config.secure;
    let lib = isSecure || config.secure === true ? tls : net;
    return lib.connect(config, onConnect);\<close>
\<close>

definition createSocket :: "bool \<Rightarrow> callback \<Rightarrow> nat option \<Rightarrow> channel \<Rightarrow> sock" where
  "createSocket opt_secure onConnect opt_socket s =
     \<lparr>lst = [], lib_tls = (config_secure s \<or> opt_secure), cb = onConnect, base = opt_socket,
      fired = False, destroyed = False, closed = False\<rparr>"

text \<open>
  \<open>_resolveCommand({resolve, reject, handler})\<close>, its last three statements:
  \<open>this._socket.once('close', onClose); this._socket.once('error', onError);
    this._receiveBuffer.on('line', onLine);\<close>.
  Both callers call it with \<open>_socket\<close> set, inside the executor of the promise; on
  \<open>null\<close> the first statement would throw, which rejects the promise.
\<close>

definition resolveCommand :: "nat \<Rightarrow> handler option \<Rightarrow> channel \<Rightarrow> channel" where
  "resolveCommand p h s =
     (case socket s of
        None \<Rightarrow> settle p (Reject (TypeError ''Cannot read property once of null'')) s
      | Some k \<Rightarrow>
          (let s1 = upd_sock k (once EvClose (CmdOnClose p)) s;
               s2 = upd_sock k (once EvError (CmdOnError p)) s1
           in s2\<lparr>line_listeners := line_listeners s2 @ [(p, h)]\<rparr>))"

text \<open>
  \<open>_connectAsPromised({handler})\<close>: \<open>if (this._socket) return resolve();\<close>, otherwise
  \<open>options\<close> is a copy of \<open>_config\<close>, the socket is created and stored, and
  \<open>_resolveCommand\<close> arms the correlation for the greeting.
\<close>

definition connectAsPromised :: "handler option \<Rightarrow> channel \<Rightarrow> channel" where
  "connectAsPromised h s =
     (let p = promises s; s0 = new_promise s in
      case socket s0 of
        Some k \<Rightarrow> settle p (Resolve Undefined) s0
      | None \<Rightarrow>
          (let k = length (sockets s0);
               options_secure = config_secure s0;
               s1 = s0\<lparr>sockets := sockets s0 @
                       [createSocket options_secure (ConnectCb options_secure) None s0],
                     socket := Some k\<rparr>
           in resolveCommand p h s1))"

text \<open>
  \<open>_closeAsPromised()\<close>: \<open>if (!this._socket) return resolve();
    this._socket.once('close', resolve); this._socket.destroy(); this._socket = null;\<close>
\<close>

definition closeAsPromised :: "channel \<Rightarrow> channel" where
  "closeAsPromised s =
     (let p = promises s; s0 = new_promise s in
      case socket s0 of
        None \<Rightarrow> settle p (Resolve Undefined) s0
      | Some k \<Rightarrow>
          (let s1 = upd_sock k (once EvClose (PromiseResolve p)) s0;
               s2 = act (Destroy k) (upd_sock k (\<lambda>x. x\<lparr>destroyed := True\<rparr>) s1)
           in s2\<lparr>socket := None\<rparr>))"

text \<open>
  \<open>_writeAsPromised(data, {handler})\<close>:
  \<open>if (!this._socket) return reject(new Error('Socket has closed'));\<close>, otherwise the
  correlation is armed and the data is piped to the socket. The data is given by its
  text; the streaming itself is the stream library's.
\<close>

definition writeAsPromised :: "string \<Rightarrow> handler option \<Rightarrow> channel \<Rightarrow> channel" where
  "writeAsPromised data h s =
     (let p = promises s; s0 = new_promise s in
      case socket s0 of
        None \<Rightarrow> settle p (Reject (Error ''Socket has closed'')) s0
      | Some k \<Rightarrow> act (Pipe k data) (resolveCommand p h s0))"

text \<open>
  The statements shared by both connect listeners:
  \<open>this._socket.removeAllListeners('error'); this._socket.on('close', this._onClose.bind(this));
    this._socket.on('data', ...); this._socket.on('end', ...); this._socket.on('error', ...);
    this._socket.on('timeout', ...);\<close>
\<close>

definition wire :: "nat \<Rightarrow> channel \<Rightarrow> channel" where
  "wire k s =
     upd_sock k (on EvTimeout OnTimeout)
       (upd_sock k (on EvError OnError)
         (upd_sock k (on EvEnd OnEnd)
           (upd_sock k (on EvData OnReceive)
             (upd_sock k (on EvClose OnClose)
               (upd_sock k (removeAllListeners EvError) s)))))"

text \<open>
  \<open>_negotiateTLSAsPromised(config)\<close>: every listener of the five events is removed from
  \<open>_socket\<close> (a \<open>null\<close> socket makes the executor throw, which rejects the promise), a
  socket is created with \<open>secure: true\<close> over the old one and stored, and \<open>reject\<close> is
  registered for its \<open>'error'\<close> event.
\<close>

definition negotiateTLSAsPromised :: "channel \<Rightarrow> channel" where
  "negotiateTLSAsPromised s =
     (let p = promises s; s0 = new_promise s in
      case socket s0 of
        None \<Rightarrow> settle p (Reject (TypeError ''Cannot read property removeAllListeners of null'')) s0
      | Some k \<Rightarrow>
          (let s1 = upd_sock k (removeAllListeners EvTimeout)
                     (upd_sock k (removeAllListeners EvError)
                       (upd_sock k (removeAllListeners EvEnd)
                         (upd_sock k (removeAllListeners EvData)
                           (upd_sock k (removeAllListeners EvClose) s0))));
               k' = length (sockets s1);
               s2 = s1\<lparr>sockets := sockets s1 @ [createSocket True (TlsCb p) (Some k) s1],
                     socket := Some k'\<rparr>
           in upd_sock k' (on EvError (PromiseReject p)) s2))"

text \<open>
  \<open>this.emit(...)\<close> on the channel. An \<open>'error'\<close> event that nobody listens to makes
  \<open>emit\<close> throw the error.
\<close>

definition emit_obs :: "obs \<Rightarrow> channel \<Rightarrow> channel \<times> js_value option" where
  "emit_obs x s =
     (case x of
        ObsError e \<Rightarrow> if error_observed s then (act (Emit x) s, None) else (s, Some e)
      | _ \<Rightarrow> (act (Emit x) s, None))"

text \<open>
  The connect listeners. In \<open>_connectAsPromised\<close>:
  \<open>this._isSecure = !!options.secure;\<close>, the wiring, \<open>this._onConnect();\<close>. In
  \<open>_negotiateTLSAsPromised\<close>: \<open>this._isSecure = true;\<close>, the wiring, \<open>resolve();\<close>.
  Both read \<open>this._socket\<close> when they run.
\<close>

definition run_callback :: "callback \<Rightarrow> channel \<Rightarrow> channel \<times> js_value option" where
  "run_callback c s =
     (case c of
        ConnectCb options_secure \<Rightarrow>
          (let s1 = s\<lparr>is_secure := options_secure\<rparr> in
           case socket s1 of
             None \<Rightarrow> (s1, Some (TypeError ''Cannot read property removeAllListeners of null''))
           | Some k \<Rightarrow> emit_obs ObsConnect (wire k s1))
      | TlsCb p \<Rightarrow>
          (let s1 = s\<lparr>is_secure := True\<rparr> in
           case socket s1 of
             None \<Rightarrow> (s1, Some (TypeError ''Cannot read property removeAllListeners of null''))
           | Some k \<Rightarrow> (settle p (Resolve Undefined) (wire k s1), None)))"

definition unlisten_line :: "nat \<Rightarrow> channel \<Rightarrow> channel" where
  "unlisten_line c s = s\<lparr>line_listeners := remove_last (\<lambda>x. fst x = c) (line_listeners s)\<rparr>"

text \<open>
  The closure \<open>onClose\<close> of \<open>_resolveCommand\<close>:
  \<open>if (this._socket) { this._socket.removeListener('error', onError); }
    this._receiveBuffer.removeListener('line', onLine);
    reject(new Error('Socket has closed unexpectedly'));\<close>
\<close>

definition cmd_onClose :: "nat \<Rightarrow> channel \<Rightarrow> channel \<times> js_value option" where
  "cmd_onClose c s =
     (let s1 = (case socket s of
                  Some k \<Rightarrow> upd_sock k (removeListener EvError (CmdOnError c)) s
                | None \<Rightarrow> s)
      in (settle c (Reject (Error ''Socket has closed unexpectedly'')) (unlisten_line c s1), None))"

text \<open>
  The closure \<open>onError\<close>:
  \<open>this._socket.removeListener('close', onClose);
    this._receiveBuffer.removeListener('line', onLine); reject(error);\<close>
\<close>

definition cmd_onError :: "nat \<Rightarrow> js_value \<Rightarrow> channel \<Rightarrow> channel \<times> js_value option" where
  "cmd_onError c error s =
     (case socket s of
        None \<Rightarrow> (s, Some (TypeError ''Cannot read property removeListener of null''))
      | Some k \<Rightarrow>
          (settle c (Reject error)
             (unlisten_line c (upd_sock k (removeListener EvClose (CmdOnClose c)) s)), None))"

text \<open>
  The closure \<open>onLine\<close>: the promise chain is queued, then
  \<open>if (isLast) { this._socket.removeListener('close', onClose);
    this._socket.removeListener('error', onError);
    this._receiveBuffer.removeListener('line', onLine); }\<close>
\<close>

definition cmd_onLine :: "nat \<Rightarrow> handler option \<Rightarrow> string \<Rightarrow> channel \<Rightarrow> channel \<times> js_value option" where
  "cmd_onLine c h line s =
     (let isLast = isLastReply line;
          s1 = s\<lparr>jobs := jobs s @ [RunHandler c h line]\<rparr>
      in if truthy isLast then
           (case socket s1 of
              None \<Rightarrow> (s1, Some (TypeError ''Cannot read property removeListener of null''))
            | Some k \<Rightarrow>
                (unlisten_line c
                   (upd_sock k (removeListener EvError (CmdOnError c))
                     (upd_sock k (removeListener EvClose (CmdOnClose c)) s1)), None))
         else (s1, None))"

text \<open>
  \<open>_receiveBuffer.feed(chunk)\<close> emits \<open>'line'\<close> for each complete line, in order, to the
  listeners registered at that moment; an exception from a listener ends the call.
\<close>

fun emit_line :: "(nat \<times> handler option) list \<Rightarrow> string \<Rightarrow> channel \<Rightarrow> channel \<times> js_value option" where
  "emit_line [] line s = (s, None)"
| "emit_line ((c, h) # ls) line s =
     (case cmd_onLine c h line s of
        (s1, None) \<Rightarrow> emit_line ls line s1
      | (s1, Some x) \<Rightarrow> (s1, Some x))"

fun feed :: "string list \<Rightarrow> channel \<Rightarrow> channel \<times> js_value option" where
  "feed [] s = (s, None)"
| "feed (line # rest) s =
     (case emit_line (line_listeners s) line s of
        (s1, None) \<Rightarrow> feed rest s1
      | (s1, Some x) \<Rightarrow> (s1, Some x))"

fun onReply_all :: "string list \<Rightarrow> channel \<Rightarrow> channel" where
  "onReply_all [] s = s"
| "onReply_all (line # rest) s = onReply_all rest (act (Emit (ObsReply line)) s)"

text \<open>
  \<open>_onReceive(chunk)\<close>: \<open>this.emit('receive', chunk);
    let lines = this._receiveBuffer.feed(chunk);
    for (let line of lines) { this._onReply(line); }\<close>
\<close>

definition ch_onReceive :: "js_value \<Rightarrow> channel \<Rightarrow> channel \<times> js_value option" where
  "ch_onReceive chunk s =
     (let s1 = act (Emit ObsReceive) s;
          lines = (case chunk of Lines ls \<Rightarrow> ls | _ \<Rightarrow> [])
      in case feed lines s1 of
           (s2, None) \<Rightarrow> (onReply_all lines s2, None)
         | (s2, Some x) \<Rightarrow> (s2, Some x))"

text \<open>The command \<open>'QUIT'\<close> followed by CR LF.\<close>

definition QUIT :: string where
  "QUIT = ''QUIT'' @ [CHR 0x0D, CHR 0x0A]"

text \<open>
  \<open>_onTimeout() { this.emit('timeout'); this.write('QUIT...'); }\<close>: the call of
  \<open>write\<close> is an expression statement, so the promise it returns is dropped. \<open>write\<close>
  is called without a deadline, for which the timeout wrapper (an external package)
  hands on the outcome of the promise of \<open>_writeAsPromised\<close>.
\<close>

definition ch_onTimeout :: "channel \<Rightarrow> channel \<times> js_value option" where
  "ch_onTimeout s =
     (act (Dropped (promises s)) (writeAsPromised QUIT None (act (Emit ObsTimeout) s)), None)"

fun run_listener :: "listener \<Rightarrow> js_value \<Rightarrow> channel \<Rightarrow> channel \<times> js_value option" where
  "run_listener (CmdOnClose c) a s = cmd_onClose c s"
| "run_listener (CmdOnError c) a s = cmd_onError c a s"
| "run_listener OnClose a s = emit_obs ObsClose (s\<lparr>socket := None\<rparr>)"
| "run_listener OnReceive a s = ch_onReceive a s"
| "run_listener OnEnd a s = emit_obs ObsEnd s"
| "run_listener OnError a s = emit_obs (ObsError a) s"
| "run_listener OnTimeout a s = ch_onTimeout s"
| "run_listener (PromiseResolve p) a s = (settle p (Resolve a) s, None)"
| "run_listener (PromiseReject p) a s = (settle p (Reject a) s, None)"

text \<open>
  \<open>socket.emit(event, a)\<close>: the listeners registered when \<open>emit\<close> starts are called in
  registration order; a \<open>once\<close> listener is removed just before it is called; an exception
  from a listener ends the emit. An \<open>'error'\<close> event without listeners throws.
\<close>

fun call_all :: "nat \<Rightarrow> entry list \<Rightarrow> js_value \<Rightarrow> channel \<Rightarrow> channel \<times> js_value option" where
  "call_all k [] a s = (s, None)"
| "call_all k ((e, l, is_once) # rest) a s =
     (let s1 = (if is_once then upd_sock k (\<lambda>x. x\<lparr>lst := remove1 (e, l, True) (lst x)\<rparr>) s else s)
      in case run_listener l a s1 of
           (s2, None) \<Rightarrow> call_all k rest a s2
         | (s2, Some x) \<Rightarrow> (s2, Some x))"

definition sock_emit :: "nat \<Rightarrow> ev \<Rightarrow> js_value \<Rightarrow> channel \<Rightarrow> channel" where
  "sock_emit k e a s =
     (let ls = listeners e (sockets s ! k) in
      if e = EvError \<and> ls = [] then act (Uncaught a) s
      else case call_all k ls a s of
             (s1, None) \<Rightarrow> s1
           | (s1, Some x) \<Rightarrow> act (Uncaught x) s1)"

section \<open>The microtask queue\<close>

fun run_job :: "job \<Rightarrow> channel \<Rightarrow> channel \<times> job list" where
  "run_job (RunHandler c None line) s = (s, [ThenResolve c line])"
| "run_job (RunHandler c (Some h) line) s =
     (let isLast = isLastReply line; code = parseReplyCode line;
          s1 = act (HandlerCall c line isLast code) s
      in case h line isLast code of
           None \<Rightarrow> (s1, [ThenResolve c line])
         | Some x \<Rightarrow> (s1, [PassReject c x]))"
| "run_job (ThenResolve c line) s =
     (if truthy (isLastReply line) then settle c (Resolve (parseReplyCode line)) s else s,
      [CatchPass c])"
| "run_job (PassReject c x) s = (s, [CatchReject c x])"
| "run_job (CatchReject c x) s = (settle c (Reject x) s, [])"
| "run_job (CatchPass c) s = (s, [])"

fun rank :: "job \<Rightarrow> nat" where
  "rank (RunHandler c h line) = 3"
| "rank (ThenResolve c line) = 2"
| "rank (PassReject c x) = 2"
| "rank (CatchReject c x) = 1"
| "rank (CatchPass c) = 1"

text \<open>
  The queue is first in, first out: the job at the head runs, and the reaction it
  triggers is queued at the end. It is emptied after every event.
\<close>

function drain :: "job list \<Rightarrow> channel \<Rightarrow> channel" where
  "drain [] s = s"
| "drain (j # q) s = drain (q @ snd (run_job j s)) (fst (run_job j s))"
  by pat_completeness auto
termination
proof (relation "measure (\<lambda>(q, s). sum_list (map rank q))")
  show "wf (measure (\<lambda>(q, s). sum_list (map rank q)))" by simp
next
  fix j q s
  have "sum_list (map rank (snd (run_job j s))) < rank j"
    by (cases j; cases "case j of RunHandler c h l \<Rightarrow> h | _ \<Rightarrow> None")
       (auto simp: Let_def split: option.splits)
  then show "((q @ snd (run_job j s), fst (run_job j s)), (j # q, s))
             \<in> measure (\<lambda>(q, s). sum_list (map rank q))"
    by simp
qed

section \<open>Events\<close>

text \<open>
  What happens to a channel: a socket's connect listener fires, a socket emits one of the
  five events, or the application calls \<open>connect\<close>, \<open>close\<close>, \<open>write\<close> or \<open>negotiateTLS\<close>
  (without the timeout wrapper, which is an external package). A socket that has emitted
  \<open>'close'\<close> emits nothing further, and a connect listener fires once.
\<close>

datatype event =
    Connected nat
  | SockClose nat bool
  | SockData nat "string list"
  | SockEnd nat
  | SockError nat js_value
  | SockTimeout nat
  | CallConnect "handler option"
  | CallClose
  | CallWrite string "handler option"
  | CallNegotiateTLS

definition live :: "nat \<Rightarrow> channel \<Rightarrow> bool" where
  "live k s = (k < length (sockets s) \<and> \<not> closed (sockets s ! k))"

fun dispatch :: "event \<Rightarrow> channel \<Rightarrow> channel" where
  "dispatch (Connected k) s =
     (if live k s \<and> \<not> fired (sockets s ! k) then
        (case run_callback (cb (sockets s ! k)) (upd_sock k (\<lambda>x. x\<lparr>fired := True\<rparr>) s) of
           (s1, None) \<Rightarrow> s1
         | (s1, Some x) \<Rightarrow> act (Uncaught x) s1)
      else s)"
| "dispatch (SockClose k hadError) s =
     (if live k s then sock_emit k EvClose (Bool hadError) (upd_sock k (\<lambda>x. x\<lparr>closed := True\<rparr>) s)
      else s)"
| "dispatch (SockData k ls) s = (if live k s then sock_emit k EvData (Lines ls) s else s)"
| "dispatch (SockEnd k) s = (if live k s then sock_emit k EvEnd Undefined s else s)"
| "dispatch (SockError k e) s = (if live k s then sock_emit k EvError e s else s)"
| "dispatch (SockTimeout k) s = (if live k s then sock_emit k EvTimeout Undefined s else s)"
| "dispatch (CallConnect h) s = connectAsPromised h s"
| "dispatch CallClose s = closeAsPromised s"
| "dispatch (CallWrite d h) s = writeAsPromised d h s"
| "dispatch CallNegotiateTLS s = negotiateTLSAsPromised s"

text \<open>One turn of the event loop: the event's synchronous part, then the microtasks.\<close>

definition step :: "channel \<Rightarrow> event \<Rightarrow> channel" where
  "step s e = (let s1 = dispatch e s in drain (jobs s1) (s1\<lparr>jobs := []\<rparr>))"

definition run :: "channel \<Rightarrow> event list \<Rightarrow> channel" where
  "run s es = foldl step s es"

section \<open>Vocabulary of the properties\<close>

text \<open>The promise a listener belongs to, and the event the source registers it for.\<close>

fun promise_of :: "listener \<Rightarrow> nat option" where
  "promise_of (CmdOnClose c) = Some c"
| "promise_of (CmdOnError c) = Some c"
| "promise_of (PromiseResolve p) = Some p"
| "promise_of (PromiseReject p) = Some p"
| "promise_of l = None"

fun kind :: "listener \<Rightarrow> ev" where
  "kind (CmdOnClose c) = EvClose"
| "kind (CmdOnError c) = EvError"
| "kind OnClose = EvClose"
| "kind OnReceive = EvData"
| "kind OnEnd = EvEnd"
| "kind OnError = EvError"
| "kind OnTimeout = EvTimeout"
| "kind (PromiseResolve p) = EvClose"
| "kind (PromiseReject p) = EvError"

fun job_promise :: "job \<Rightarrow> nat" where
  "job_promise (RunHandler c h line) = c"
| "job_promise (ThenResolve c line) = c"
| "job_promise (PassReject c x) = c"
| "job_promise (CatchReject c x) = c"
| "job_promise (CatchPass c) = c"

definition mentions :: "nat \<Rightarrow> entry \<Rightarrow> bool" where
  "mentions p x = (promise_of (fst (snd x)) = Some p)"

definition entries_of :: "nat \<Rightarrow> channel \<Rightarrow> entry list list" where
  "entries_of p s = map (\<lambda>x. filter (mentions p) (lst x)) (sockets s)"

definition lines_of :: "nat \<Rightarrow> channel \<Rightarrow> (nat \<times> handler option) list" where
  "lines_of p s = filter (\<lambda>x. fst x = p) (line_listeners s)"

definition jobs_of :: "nat \<Rightarrow> job list \<Rightarrow> job list" where
  "jobs_of p q = filter (\<lambda>j. job_promise j = p) q"



text \<open>The socket event that an event of the environment is, if it is one.\<close>

fun target :: "event \<Rightarrow> (nat \<times> ev) option" where
  "target (SockClose k hadError) = Some (k, EvClose)"
| "target (SockData k ls) = Some (k, EvData)"
| "target (SockEnd k) = Some (k, EvEnd)"
| "target (SockError k e) = Some (k, EvError)"
| "target (SockTimeout k) = Some (k, EvTimeout)"
| "target e = None"

text \<open>
  The functions of promise \<open>p\<close> can only be reached through the socket events in \<open>A\<close>:
  \<open>p\<close> has no \<open>'line'\<close> listener, no queued job, no pending connect listener, and on a
  socket that can still emit, its listeners are registered for events in \<open>A\<close> only.
\<close>

definition confined :: "nat \<Rightarrow> (nat \<times> ev) set \<Rightarrow> channel \<Rightarrow> bool" where
  "confined p A s =
     (p < promises s \<and> lines_of p s = [] \<and> jobs_of p (jobs s) = []
      \<and> (\<forall>k < length (sockets s). \<not> closed (sockets s ! k) \<longrightarrow>
            (\<not> fired (sockets s ! k) \<longrightarrow> cb (sockets s ! k) \<noteq> TlsCb p)
            \<and> (\<forall>x \<in> set (lst (sockets s ! k)). mentions p x \<longrightarrow> (k, fst x) \<in> A)))"

text \<open>Promise number \<open>p\<close> occurs nowhere in the state yet.\<close>

definition unused :: "nat \<Rightarrow> channel \<Rightarrow> bool" where
  "unused p s =
     (lines_of p s = [] \<and> jobs_of p (jobs s) = [] \<and> calls p s = []
      \<and> (\<forall>x\<in>set (sockets s). cb x \<noteq> TlsCb p \<and> filter (mentions p) (lst x) = []))"

definition shell :: "sock \<Rightarrow> sock" where
  "shell x = x\<lparr>lst := []\<rparr>"

text \<open>What a listener of another promise leaves alone.\<close>

definition same_view :: "nat \<Rightarrow> channel \<Rightarrow> channel \<Rightarrow> bool" where
  "same_view p s s' =
     (entries_of p s' = entries_of p s \<and> lines_of p s' = lines_of p s
      \<and> calls p s' = calls p s \<and> jobs_of p (jobs s') = jobs_of p (jobs s)
      \<and> (p < promises s \<longrightarrow> p < promises s'))"

text \<open>What no listener changes.\<close>

definition same_shell :: "channel \<Rightarrow> channel \<Rightarrow> bool" where
  "same_shell s s' =
     (map shell (sockets s') = map shell (sockets s) \<and> is_secure s' = is_secure s
      \<and> config_secure s' = config_secure s \<and> error_observed s' = error_observed s
      \<and> (socket s' = socket s \<or> socket s' = None) \<and> promises s \<le> promises s')"

section \<open>Example sessions\<close>

text \<open>
  A plaintext session after the greeting: \<open>connect()\<close>, the socket connects, the server
  sends \<open>220 ready\<close>.
\<close>

definition greeted :: channel where
  "greeted = run (init False True) [CallConnect None, Connected 0, SockData 0 [''220 ready'']]"

section \<open>The security flag\<close>

text \<open>
  The flag agrees with the current socket once that socket's connect listener has
  fired; every socket made by \<open>_connectAsPromised\<close> is a TLS socket iff \<open>_config.secure\<close>
  is set, and every socket made by \<open>_negotiateTLSAsPromised\<close> is a TLS socket.
\<close>

definition cb_ok :: "bool \<Rightarrow> sock \<Rightarrow> bool" where
  "cb_ok sec x = (case cb x of ConnectCb b \<Rightarrow> b = sec \<and> lib_tls x = sec | TlsCb p \<Rightarrow> lib_tls x)"

definition secure_inv :: "bool \<Rightarrow> channel \<Rightarrow> bool" where
  "secure_inv sec s =
     (config_secure s = sec
      \<and> (\<forall>k. socket s = Some k \<longrightarrow>
            k < length (sockets s)
            \<and> (fired (sockets s ! k) \<longrightarrow> is_secure s = lib_tls (sockets s ! k)))
      \<and> (\<forall>x\<in>set (sockets s). cb_ok sec x))"

text \<open>
  Every connect listener in the event sequence fires for the socket that the channel
  holds at that moment.
\<close>

fun current_only :: "channel \<Rightarrow> event list \<Rightarrow> bool" where
  "current_only s [] = True"
| "current_only s (e # es) =
     ((case e of Connected k \<Rightarrow> socket s = Some k | _ \<Rightarrow> True) \<and> current_only (step s e) es)"

text \<open>
  A plaintext session upgraded after \<open>STARTTLS\<close>: the reply \<open>220 go ahead\<close>,
  \<open>negotiateTLS()\<close>, the TLS socket connects.
\<close>

definition upgraded :: channel where
  "upgraded = run greeted [CallWrite ''STARTTLS'' None, SockData 0 [''220 go ahead''],
     CallNegotiateTLS, Connected 1]"

text \<open>
  A session in which a connect listener fires late. After a first session the
  application calls \<open>close()\<close> and, without waiting for the socket's \<open>'close'\<close> event,
  \<open>connect()\<close> again (socket 1). The \<open>'close'\<close> event of socket 0 then runs \<open>_onClose\<close>,
  which sets \<open>_socket\<close> to \<open>null\<close> while socket 1 is still connecting. The application
  connects once more (socket 2), is greeted, sends \<open>STARTTLS\<close> and upgrades the
  connection (socket 3, over TLS). Only then does socket 1 connect.
\<close>

definition late_connect :: "event list" where
  "late_connect =
     [CallConnect None, Connected 0, SockData 0 [''220 ready''],
      CallClose, CallConnect None, SockClose 0 False,
      CallConnect None, Connected 2, SockData 2 [''220 ready''],
      CallWrite ''STARTTLS'' None, SockData 2 [''220 go ahead''],
      CallNegotiateTLS, Connected 3,
      Connected 1]"

definition overtaken :: channel where
  "overtaken = run (init False True) late_connect"

section \<open>Sessions with a command outstanding\<close>

text \<open>
  \<open>dialing\<close>: \<open>connect()\<close> was called and the socket has not connected yet.
  \<open>written\<close>: after the greeting, \<open>write('NOOP')\<close> was called. \<open>dropped\<close>: the server
  then closed the connection. \<open>closing\<close>: instead, the application called \<open>close()\<close>
  and the socket emitted \<open>'close'\<close>.
\<close>

definition dialing :: channel where
  "dialing = run (init False True) [CallConnect None]"

definition written :: channel where
  "written = run greeted [CallWrite ''NOOP'' None]"

definition dropped :: channel where
  "dropped = run written [SockClose 0 False]"

definition closing :: channel where
  "closing = run written [CallClose, SockClose 0 False]"

text \<open>
  \<open>refused\<close>: \<open>connect()\<close> was called and the connection was refused: the socket emitted
  \<open>'error'\<close> and then \<open>'close'\<close> without ever connecting.
\<close>

definition refused :: channel where
  "refused = run dialing [SockError 0 (Error ''ECONNREFUSED''), SockClose 0 True]"

section \<open>An armed command\<close>

text \<open>The handler, if there is one, returns normally on each of the lines.\<close>

definition quiet :: "handler option \<Rightarrow> string list \<Rightarrow> bool" where
  "quiet h ls =
     (case h of None \<Rightarrow> True
      | Some f \<Rightarrow> \<forall>l\<in>set ls. f l (isLastReply l) (parseReplyCode l) = None)"

text \<open>
  Command \<open>c\<close> is armed on the socket \<open>k\<close> that the channel holds, and is the only armed
  command: its \<open>onLine\<close> is the only \<open>'line'\<close> listener; on \<open>k\<close> it has its \<open>onClose\<close>
  listener and the listeners \<open>es\<close>, which is its \<open>onError\<close> listener or nothing (the
  connect listener removes the error listeners); it has no listener elsewhere; the
  microtask queue is empty.
\<close>

definition armed :: "nat \<Rightarrow> nat \<Rightarrow> entry list \<Rightarrow> channel \<Rightarrow> bool" where
  "armed c k es s =
     (live k s \<and> socket s = Some k \<and> jobs s = [] \<and> c < promises s
      \<and> (\<forall>x\<in>set (lst (sockets s ! k)). kind (fst (snd x)) = fst x)
      \<and> map fst (line_listeners s) = [c]
      \<and> filter (mentions c) (lst (sockets s ! k)) = (EvClose, CmdOnClose c, True) # es
      \<and> (es = [] \<or> es = [(EvError, CmdOnError c, True)])
      \<and> (\<forall>j<length (sockets s).
            (j \<noteq> k \<longrightarrow> filter (mentions c) (lst (sockets s ! j)) = [])
            \<and> (\<not> fired (sockets s ! j) \<longrightarrow> cb (sockets s ! j) \<noteq> TlsCb c)))"

text \<open>The \<open>resolve\<close> calls that the second \<open>then\<close> of the chains of these lines makes.\<close>

fun resolves :: "string list \<Rightarrow> outcome list" where
  "resolves [] = []"
| "resolves (l # ls) =
     (if truthy (isLastReply l) then Resolve (parseReplyCode l) # resolves ls else resolves ls)"

section \<open>A handler that fails on a continuation line\<close>

text \<open>
  \<open>fussy\<close> throws \<open>Error('boom')\<close> on the line \<open>250-PIPELINING\<close> and returns normally on
  every other line. \<open>ehlo\<close>: after the greeting, \<open>write('EHLO')\<close> with this handler. The
  server's two-line reply then arrives in one chunk (\<open>one_chunk\<close>) or in two
  (\<open>two_chunks\<close>).
\<close>

definition fussy :: handler where
  "fussy line isLast code = (if line = ''250-PIPELINING'' then Some (Error ''boom'') else None)"

definition ehlo :: channel where
  "ehlo = run greeted [CallWrite ''EHLO'' (Some fussy)]"

definition one_chunk :: channel where
  "one_chunk = run ehlo [SockData 0 [''250-PIPELINING'', ''250 HELP'']]"

definition two_chunks :: channel where
  "two_chunks = run ehlo [SockData 0 [''250-PIPELINING''], SockData 0 [''250 HELP'']]"

section \<open>Well-formed states\<close>

text \<open>
  Every listener is registered for the event the source registers it for, and every
  promise that occurs in the state has been created; \<open>_socket\<close> refers to a socket that
  exists. The states reached from a new channel are of this kind.
\<close>

definition entry_ok :: "nat \<Rightarrow> entry \<Rightarrow> bool" where
  "entry_ok n y =
     (kind (fst (snd y)) = fst y \<and> (\<forall>p. promise_of (fst (snd y)) = Some p \<longrightarrow> p < n))"

definition sock_ok :: "nat \<Rightarrow> sock \<Rightarrow> bool" where
  "sock_ok n x = ((\<forall>y\<in>set (lst x). entry_ok n y) \<and> (\<forall>p. cb x = TlsCb p \<longrightarrow> p < n))"

definition wf_state :: "channel \<Rightarrow> bool" where
  "wf_state s =
     ((\<forall>x\<in>set (sockets s). sock_ok (promises s) x)
      \<and> (\<forall>x\<in>set (line_listeners s). fst x < promises s)
      \<and> (\<forall>j\<in>set (jobs s). job_promise j < promises s)
      \<and> (\<forall>p. calls p s \<noteq> [] \<longrightarrow> p < promises s)
      \<and> (\<forall>k. socket s = Some k \<longrightarrow> k < length (sockets s)))"

section \<open>The socket that the channel holds\<close>

text \<open>
  The five listeners that the connect listeners register on \<open>_socket\<close>. Once the
  connect listener of the socket that the channel holds has fired, that socket has not
  closed and carries them. The states reached from a new channel are of this kind.
  \<open>keeps_wiring\<close> is what every listener leaves alone: those of the five that are
  registered stay registered.
\<close>

definition wiring :: "entry list" where
  "wiring = [(EvClose, OnClose, False), (EvData, OnReceive, False), (EvEnd, OnEnd, False),
             (EvError, OnError, False), (EvTimeout, OnTimeout, False)]"

definition held_wired :: "channel \<Rightarrow> bool" where
  "held_wired s =
     (\<forall>k. socket s = Some k \<and> fired (sockets s ! k) \<longrightarrow>
           \<not> closed (sockets s ! k) \<and> (\<forall>w\<in>set wiring. w \<in> set (lst (sockets s ! k))))"

definition keeps_wiring :: "channel \<Rightarrow> channel \<Rightarrow> bool" where
  "keeps_wiring s s' =
     (\<forall>j. \<forall>w\<in>set wiring. w \<in> set (lst (sockets s ! j)) \<longrightarrow> w \<in> set (lst (sockets s' ! j)))"

section \<open>Frame lemmas\<close>

lemma act_fields [simp]:
  "trace (act a s) = trace s @ [a]"
  "socket (act a s) = socket s"
  "sockets (act a s) = sockets s"
  "line_listeners (act a s) = line_listeners s"
  "promises (act a s) = promises s"
  "jobs (act a s) = jobs s"
  "is_secure (act a s) = is_secure s"
  "config_secure (act a s) = config_secure s"
  "error_observed (act a s) = error_observed s"
  by (simp_all add: act_def)

lemma upd_sock_fields [simp]:
  "trace (upd_sock k f s) = trace s"
  "socket (upd_sock k f s) = socket s"
  "length (sockets (upd_sock k f s)) = length (sockets s)"
  "line_listeners (upd_sock k f s) = line_listeners s"
  "promises (upd_sock k f s) = promises s"
  "jobs (upd_sock k f s) = jobs s"
  "is_secure (upd_sock k f s) = is_secure s"
  "config_secure (upd_sock k f s) = config_secure s"
  "error_observed (upd_sock k f s) = error_observed s"
  by (simp_all add: upd_sock_def)

lemma upd_sock_nth:
  "sockets (upd_sock k f s) ! j =
     (if j = k \<and> k < length (sockets s) then f (sockets s ! k) else sockets s ! j)"
  by (cases "k < length (sockets s)") (auto simp: upd_sock_def nth_list_update list_update_beyond)

lemma new_promise_fields [simp]:
  "trace (new_promise s) = trace s"
  "socket (new_promise s) = socket s"
  "sockets (new_promise s) = sockets s"
  "line_listeners (new_promise s) = line_listeners s"
  "promises (new_promise s) = Suc (promises s)"
  "jobs (new_promise s) = jobs s"
  "is_secure (new_promise s) = is_secure s"
  "config_secure (new_promise s) = config_secure s"
  "error_observed (new_promise s) = error_observed s"
  by (simp_all add: new_promise_def)

lemma unlisten_line_fields [simp]:
  "trace (unlisten_line c s) = trace s"
  "socket (unlisten_line c s) = socket s"
  "sockets (unlisten_line c s) = sockets s"
  "promises (unlisten_line c s) = promises s"
  "jobs (unlisten_line c s) = jobs s"
  "is_secure (unlisten_line c s) = is_secure s"
  "config_secure (unlisten_line c s) = config_secure s"
  "error_observed (unlisten_line c s) = error_observed s"
  by (simp_all add: unlisten_line_def)

lemma resolveCommand_fields [simp]:
  "socket (resolveCommand p h s) = socket s"
  "promises (resolveCommand p h s) = promises s"
  "jobs (resolveCommand p h s) = jobs s"
  "is_secure (resolveCommand p h s) = is_secure s"
  "length (sockets (resolveCommand p h s)) = length (sockets s)"
  by (simp_all add: resolveCommand_def settle_def Let_def split: option.splits)

lemma run_job_frame:
  "socket (fst (run_job j s)) = socket s"
  "sockets (fst (run_job j s)) = sockets s"
  "line_listeners (fst (run_job j s)) = line_listeners s"
  "promises (fst (run_job j s)) = promises s"
  "jobs (fst (run_job j s)) = jobs s"
  "is_secure (fst (run_job j s)) = is_secure s"
  by (cases j; cases "case j of RunHandler c h l \<Rightarrow> h | _ \<Rightarrow> None";
      simp add: Let_def settle_def split: option.splits)+

lemma drain_frame:
  "socket (drain q s) = socket s \<and> sockets (drain q s) = sockets s
   \<and> line_listeners (drain q s) = line_listeners s \<and> promises (drain q s) = promises s
   \<and> jobs (drain q s) = jobs s \<and> is_secure (drain q s) = is_secure s"
  by (induction q s rule: drain.induct) (simp_all add: run_job_frame)


lemma calls_of_append [simp]: "calls_of p (xs @ ys) = calls_of p xs @ calls_of p ys"
  by (induction p xs rule: calls_of.induct) simp_all

lemma filter_remove_first_other:
  "(\<And>x. P x \<Longrightarrow> \<not> Q x) \<Longrightarrow> filter Q (remove_first P xs) = filter Q xs"
  by (induction xs) auto

lemma filter_remove_last_other:
  "(\<And>x. P x \<Longrightarrow> \<not> Q x) \<Longrightarrow> filter Q (remove_last P xs) = filter Q xs"
  by (simp add: remove_last_def filter_remove_first_other flip: rev_filter)

lemma filter_remove_first_self:
  "(\<And>x. P x \<Longrightarrow> Q x) \<Longrightarrow> filter Q (remove_first P xs) = remove_first P (filter Q xs)"
  by (induction xs) auto

lemma filter_remove_last_self:
  "(\<And>x. P x \<Longrightarrow> Q x) \<Longrightarrow> filter Q (remove_last P xs) = remove_last P (filter Q xs)"
  by (simp add: remove_last_def filter_remove_first_self flip: rev_filter)

lemma map_update_same:
  "g (f (xs ! k)) = g (xs ! k) \<Longrightarrow> map g (xs[k := f (xs ! k)]) = map g xs"
  by (cases "k < length xs") (simp_all add: map_update list_update_same_conv list_update_beyond)

lemma entries_of_upd_other:
  "filter (mentions p) (lst (f (sockets s ! k))) = filter (mentions p) (lst (sockets s ! k))
   \<Longrightarrow> entries_of p (upd_sock k f s) = entries_of p s"
  unfolding entries_of_def upd_sock_def
  using map_update_same [of "\<lambda>x. filter (mentions p) (lst x)" f "sockets s" k] by simp

lemma entries_of_simps [simp]:
  "entries_of p (act a s) = entries_of p s"
  "entries_of p (unlisten_line c s) = entries_of p s"
  "entries_of p (new_promise s) = entries_of p s"
  "entries_of p (s\<lparr>socket := x\<rparr>) = entries_of p s"
  "entries_of p (s\<lparr>jobs := q\<rparr>) = entries_of p s"
  "entries_of p (s\<lparr>line_listeners := ll\<rparr>) = entries_of p s"
  by (simp_all add: entries_of_def)

lemma lines_of_simps [simp]:
  "lines_of p (act a s) = lines_of p s"
  "lines_of p (upd_sock k f s) = lines_of p s"
  "lines_of p (new_promise s) = lines_of p s"
  "lines_of p (s\<lparr>socket := x\<rparr>) = lines_of p s"
  "lines_of p (s\<lparr>jobs := q\<rparr>) = lines_of p s"
  by (simp_all add: lines_of_def)

lemma lines_of_unlisten_other:
  "c \<noteq> p \<Longrightarrow> lines_of p (unlisten_line c s) = lines_of p s"
  unfolding lines_of_def unlisten_line_def
  by (simp, rule filter_remove_last_other) auto

lemma calls_simps [simp]:
  "calls p (upd_sock k f s) = calls p s"
  "calls p (unlisten_line c s) = calls p s"
  "calls p (new_promise s) = calls p s"
  "calls p (s\<lparr>socket := x\<rparr>) = calls p s"
  "calls p (s\<lparr>jobs := q\<rparr>) = calls p s"
  "calls p (s\<lparr>line_listeners := ll\<rparr>) = calls p s"
  by (simp_all add: calls_def)

lemma calls_act:
  "calls p (act a s) = calls p s @ calls_of p [a]"
  by (simp add: calls_def)

lemma same_view_refl [simp]: "same_view p s s"
  by (simp add: same_view_def)

lemma same_view_trans: "same_view p s s1 \<Longrightarrow> same_view p s1 s2 \<Longrightarrow> same_view p s s2"
  by (simp add: same_view_def)

lemma removeListener_other:
  "promise_of l \<noteq> Some p \<Longrightarrow>
   filter (mentions p) (lst (removeListener e l x)) = filter (mentions p) (lst x)"
  unfolding removeListener_def
  by (simp, rule filter_remove_last_other) (auto simp: mentions_def)

lemma once_other:
  "promise_of l \<noteq> Some p \<Longrightarrow>
   filter (mentions p) (lst (once e l x)) = filter (mentions p) (lst x)"
  "promise_of l \<noteq> Some p \<Longrightarrow>
   filter (mentions p) (lst (on e l x)) = filter (mentions p) (lst x)"
  by (simp_all add: once_def on_def mentions_def)

lemma cmd_onClose_other:
  "c \<noteq> p \<Longrightarrow> same_view p s (fst (cmd_onClose c s)) \<and> snd (cmd_onClose c s) = None"
  by (auto simp: cmd_onClose_def same_view_def settle_def calls_act lines_of_unlisten_other
      entries_of_upd_other removeListener_other Let_def split: option.splits)

lemma cmd_onError_other:
  "c \<noteq> p \<Longrightarrow> same_view p s (fst (cmd_onError c a s))"
  by (auto simp: cmd_onError_def same_view_def settle_def calls_act lines_of_unlisten_other
      entries_of_upd_other removeListener_other Let_def split: option.splits)

lemma resolveCommand_other:
  "c \<noteq> p \<Longrightarrow> same_view p s (resolveCommand c h s)"
  by (auto simp: resolveCommand_def settle_def same_view_def calls_act lines_of_def
      entries_of_upd_other once_other Let_def split: option.splits)

lemma writeAsPromised_other:
  "p < promises s \<Longrightarrow> same_view p s (writeAsPromised d h s)"
proof -
  assume lt: "p < promises s"
  then have "same_view p (new_promise s) (resolveCommand (promises s) h (new_promise s))"
    by (intro resolveCommand_other) simp
  with lt show ?thesis
    by (auto simp: writeAsPromised_def Let_def same_view_def settle_def calls_act
        split: option.splits)
qed

lemma emit_obs_view: "same_view p s (fst (emit_obs x s))"
  by (cases x) (auto simp: emit_obs_def same_view_def calls_act)

lemma cmd_onLine_other:
  "c \<noteq> p \<Longrightarrow> same_view p s (fst (cmd_onLine c h l s))"
  by (auto simp: cmd_onLine_def same_view_def lines_of_unlisten_other jobs_of_def
      entries_of_upd_other removeListener_other Let_def split: option.splits)

lemma emit_line_other:
  "\<forall>x\<in>set ls. fst x \<noteq> p \<Longrightarrow> same_view p s (fst (emit_line ls l s))"
proof (induction ls arbitrary: s)
  case Nil
  then show ?case by simp
next
  case (Cons x ls)
  obtain c h where x: "x = (c, h)" by (cases x)
  with Cons.prems have "c \<noteq> p" by simp
  then have v: "same_view p s (fst (cmd_onLine c h l s))" by (rule cmd_onLine_other)
  show ?case
  proof (cases "cmd_onLine c h l s")
    case (Pair s1 r)
    with v have v1: "same_view p s s1" by simp
    show ?thesis
    proof (cases r)
      case None
      from Cons.prems have "same_view p s1 (fst (emit_line ls l s1))"
        by (intro Cons.IH) simp
      with v1 Pair None x show ?thesis by (auto intro: same_view_trans)
    next
      case (Some e)
      with v1 Pair x show ?thesis by simp
    qed
  qed
qed

lemma feed_other:
  "lines_of p s = [] \<Longrightarrow> same_view p s (fst (feed ls s))"
proof (induction ls arbitrary: s)
  case Nil
  then show ?case by simp
next
  case (Cons l ls)
  from Cons.prems have "\<forall>x\<in>set (line_listeners s). fst x \<noteq> p"
    by (simp add: lines_of_def filter_empty_conv)
  then have v: "same_view p s (fst (emit_line (line_listeners s) l s))"
    by (rule emit_line_other)
  show ?case
  proof (cases "emit_line (line_listeners s) l s")
    case (Pair s1 r)
    with v have v1: "same_view p s s1" by simp
    with Cons.prems have "lines_of p s1 = []" by (simp add: same_view_def)
    then have "same_view p s1 (fst (feed ls s1))" by (rule Cons.IH)
    with v1 Pair show ?thesis by (cases r) (auto intro: same_view_trans)
  qed
qed

lemma onReply_all_view: "same_view p s (onReply_all ls s)"
proof (induction ls arbitrary: s)
  case Nil
  then show ?case by simp
next
  case (Cons l ls)
  have "same_view p s (act (Emit (ObsReply l)) s)"
    by (simp add: same_view_def calls_act)
  with Cons.IH [of "act (Emit (ObsReply l)) s"] show ?case
    by (auto intro: same_view_trans)
qed

lemma ch_onReceive_other:
  "lines_of p s = [] \<Longrightarrow> same_view p s (fst (ch_onReceive a s))"
proof -
  assume e: "lines_of p s = []"
  let ?s1 = "act (Emit ObsReceive) s"
  let ?ls = "case a of Lines ls \<Rightarrow> ls | _ \<Rightarrow> []"
  have v0: "same_view p s ?s1" by (simp add: same_view_def calls_act)
  from e have "lines_of p ?s1 = []" by simp
  then have v1: "same_view p ?s1 (fst (feed ?ls ?s1))" by (rule feed_other)
  show ?thesis
  proof (cases "feed ?ls ?s1")
    case (Pair s2 r)
    with v0 v1 have v2: "same_view p s s2" by (auto intro: same_view_trans)
    with Pair onReply_all_view [of p s2 ?ls] show ?thesis
      by (cases r) (auto simp: ch_onReceive_def Let_def intro: same_view_trans)
  qed
qed

lemma ch_onTimeout_other:
  "p < promises s \<Longrightarrow> same_view p s (fst (ch_onTimeout s))"
proof -
  assume lt: "p < promises s"
  have v0: "same_view p s (act (Emit ObsTimeout) s)" by (simp add: same_view_def calls_act)
  from lt have "same_view p (act (Emit ObsTimeout) s) (writeAsPromised QUIT None (act (Emit ObsTimeout) s))"
    by (intro writeAsPromised_other) simp
  with v0 have "same_view p s (writeAsPromised QUIT None (act (Emit ObsTimeout) s))"
    by (rule same_view_trans)
  then have "same_view p s (act (Dropped (promises s))
      (writeAsPromised QUIT None (act (Emit ObsTimeout) s)))"
    by (simp add: same_view_def calls_act)
  then show ?thesis by (simp add: ch_onTimeout_def)
qed

lemma run_listener_other:
  assumes "promise_of l \<noteq> Some p" and "p < promises s"
    and "l = OnReceive \<longrightarrow> lines_of p s = []"
  shows "same_view p s (fst (run_listener l a s))"
proof (cases l)
  case (CmdOnClose c)
  with assms show ?thesis using cmd_onClose_other [of c p s] by simp
next
  case (CmdOnError c)
  with assms show ?thesis using cmd_onError_other [of c p s a] by simp
next
  case OnClose
  have "same_view p s (s\<lparr>socket := None\<rparr>)" by (simp add: same_view_def)
  with OnClose emit_obs_view [of p "s\<lparr>socket := None\<rparr>" ObsClose] show ?thesis
    by (auto intro: same_view_trans)
next
  case OnReceive
  with assms show ?thesis using ch_onReceive_other [of p s a] by simp
next
  case OnEnd
  then show ?thesis using emit_obs_view [of p s ObsEnd] by simp
next
  case OnError
  then show ?thesis using emit_obs_view [of p s "ObsError a"] by simp
next
  case OnTimeout
  with assms show ?thesis using ch_onTimeout_other [of p s] by simp
next
  case (PromiseResolve q)
  with assms show ?thesis by (simp add: same_view_def settle_def calls_act)
next
  case (PromiseReject q)
  with assms show ?thesis by (simp add: same_view_def settle_def calls_act)
qed

lemma call_all_other:
  assumes "\<forall>x\<in>set ls. \<not> mentions p x" and "p < promises s"
    and "(\<forall>x\<in>set ls. fst (snd x) \<noteq> OnReceive) \<or> lines_of p s = []"
  shows "same_view p s (fst (call_all k ls a s))"
  using assms
proof (induction ls arbitrary: s)
  case Nil
  then show ?case by simp
next
  case (Cons x ls)
  obtain e l is_once where x: "x = (e, l, is_once)" by (cases x)
  let ?s1 = "if is_once then upd_sock k (\<lambda>x. x\<lparr>lst := remove1 (e, l, True) (lst x)\<rparr>) s else s"
  from Cons.prems x have nm: "promise_of l \<noteq> Some p" by (simp add: mentions_def)
  then have v1: "same_view p s ?s1"
    by (auto simp: same_view_def mentions_def filter_remove1 remove1_idem
        intro!: entries_of_upd_other)
  with Cons.prems have lt1: "p < promises ?s1" by (simp add: same_view_def)
  from Cons.prems x v1 have "l = OnReceive \<longrightarrow> lines_of p ?s1 = []"
    by (auto simp: same_view_def)
  with nm lt1 have v2: "same_view p ?s1 (fst (run_listener l a ?s1))"
    by (intro run_listener_other)
  show ?case
  proof (cases "run_listener l a ?s1")
    case (Pair s2 r)
    with v1 v2 have v3: "same_view p s s2" by (auto intro: same_view_trans)
    show ?thesis
    proof (cases r)
      case None
      from v3 Cons.prems have "same_view p s2 (fst (call_all k ls a s2))"
        by (intro Cons.IH) (auto simp: same_view_def)
      with v3 Pair None x show ?thesis by (auto simp: Let_def intro: same_view_trans)
    next
      case (Some err)
      with v3 Pair x show ?thesis by (simp add: Let_def)
    qed
  qed
qed

lemma run_job_other:
  "job_promise j \<noteq> p \<Longrightarrow>
   calls p (fst (run_job j s)) = calls p s \<and> jobs_of p (snd (run_job j s)) = []"
  by (cases j; cases "case j of RunHandler c h l \<Rightarrow> h | _ \<Rightarrow> None")
     (auto simp: Let_def settle_def calls_act jobs_of_def split: option.splits)

lemma drain_other:
  "jobs_of p q = [] \<Longrightarrow> calls p (drain q s) = calls p s"
proof (induction q s rule: drain.induct)
  case (1 s)
  then show ?case by simp
next
  case (2 j q s)
  from "2.prems" have j: "job_promise j \<noteq> p" and q: "jobs_of p q = []"
    by (auto simp: jobs_of_def split: if_splits)
  with run_job_other [OF j, of s] have "jobs_of p (q @ snd (run_job j s)) = []"
    by (simp add: jobs_of_def)
  with "2.IH" run_job_other [OF j, of s] show ?case by simp
qed

lemma same_shell_refl [simp]: "same_shell s s"
  by (simp add: same_shell_def)

lemma same_shell_trans: "same_shell s s1 \<Longrightarrow> same_shell s1 s2 \<Longrightarrow> same_shell s s2"
  by (auto simp: same_shell_def)

lemma shell_lst [simp]:
  "shell (x\<lparr>lst := l\<rparr>) = shell x"
  "shell (on e l' x) = shell x"
  "shell (once e l' x) = shell x"
  "shell (removeListener e l' x) = shell x"
  "shell (removeAllListeners e x) = shell x"
  by (simp_all add: shell_def on_def once_def removeListener_def removeAllListeners_def)

lemma shell_fields:
  "cb x = cb (shell x)" "fired x = fired (shell x)" "closed x = closed (shell x)"
  "lib_tls x = lib_tls (shell x)" "destroyed x = destroyed (shell x)" "base x = base (shell x)"
  by (simp_all add: shell_def)

lemma shells_upd:
  "shell (f (sockets s ! k)) = shell (sockets s ! k) \<Longrightarrow>
   map shell (sockets (upd_sock k f s)) = map shell (sockets s)"
  unfolding upd_sock_def using map_update_same [of shell f "sockets s" k] by simp

lemma same_shell_upd:
  "shell (f (sockets s ! k)) = shell (sockets s ! k) \<Longrightarrow> same_shell s (upd_sock k f s)"
  by (simp add: same_shell_def shells_upd)

lemma same_shell_basic [simp]:
  "same_shell s (act a s)"
  "same_shell s (unlisten_line c s)"
  "same_shell s (new_promise s)"
  "same_shell s (s\<lparr>socket := None\<rparr>)"
  "same_shell s (s\<lparr>jobs := q\<rparr>)"
  by (simp_all add: same_shell_def unlisten_line_def)

lemma same_shell_act: "same_shell s s1 \<Longrightarrow> same_shell s (act a s1)"
  by (simp add: same_shell_def)

lemma resolveCommand_shell: "same_shell s (resolveCommand c h s)"
  by (auto simp: resolveCommand_def settle_def Let_def same_shell_def shells_upd
      split: option.splits)

lemma writeAsPromised_shell: "same_shell s (writeAsPromised d h s)"
  using resolveCommand_shell [of "new_promise s" "promises s" h]
  by (auto simp: writeAsPromised_def Let_def settle_def same_shell_def split: option.splits)

lemma emit_obs_shell: "same_shell s (fst (emit_obs x s))"
  by (cases x) (auto simp: emit_obs_def)

lemma cmd_onClose_shell: "same_shell s (fst (cmd_onClose c s))"
  by (auto simp: cmd_onClose_def Let_def settle_def same_shell_def shells_upd unlisten_line_def
      split: option.splits)

lemma cmd_onError_shell: "same_shell s (fst (cmd_onError c a s))"
  by (auto simp: cmd_onError_def Let_def settle_def same_shell_def shells_upd unlisten_line_def
      split: option.splits)

lemma cmd_onLine_shell: "same_shell s (fst (cmd_onLine c h l s))"
  by (auto simp: cmd_onLine_def Let_def same_shell_def shells_upd unlisten_line_def
      split: option.splits)

lemma emit_line_shell: "same_shell s (fst (emit_line ls l s))"
proof (induction ls arbitrary: s)
  case Nil
  then show ?case by simp
next
  case (Cons x ls)
  obtain c h where x: "x = (c, h)" by (cases x)
  show ?case
  proof (cases "cmd_onLine c h l s")
    case (Pair s1 r)
    with cmd_onLine_shell [of s c h l] have "same_shell s s1" by simp
    with Pair x Cons.IH [of s1] show ?thesis
      by (cases r) (auto intro: same_shell_trans)
  qed
qed

lemma feed_shell: "same_shell s (fst (feed ls s))"
proof (induction ls arbitrary: s)
  case Nil
  then show ?case by simp
next
  case (Cons l ls)
  show ?case
  proof (cases "emit_line (line_listeners s) l s")
    case (Pair s1 r)
    with emit_line_shell [of s "line_listeners s" l] have "same_shell s s1" by simp
    with Pair Cons.IH [of s1] show ?thesis
      by (cases r) (auto intro: same_shell_trans)
  qed
qed

lemma onReply_all_shell: "same_shell s (onReply_all ls s)"
proof (induction ls arbitrary: s)
  case Nil
  then show ?case by simp
next
  case (Cons l ls)
  from Cons.IH [of "act (Emit (ObsReply l)) s"] show ?case
    by (auto simp: same_shell_def)
qed

lemma ch_onReceive_shell: "same_shell s (fst (ch_onReceive a s))"
proof -
  let ?s1 = "act (Emit ObsReceive) s"
  let ?ls = "case a of Lines ls \<Rightarrow> ls | _ \<Rightarrow> []"
  show ?thesis
  proof (cases "feed ?ls ?s1")
    case (Pair s2 r)
    with feed_shell [of ?s1 ?ls] have "same_shell s s2" by (simp add: same_shell_def)
    with Pair onReply_all_shell [of s2 ?ls] show ?thesis
      by (cases r) (auto simp: ch_onReceive_def Let_def intro: same_shell_trans)
  qed
qed

lemma ch_onTimeout_shell: "same_shell s (fst (ch_onTimeout s))"
  using writeAsPromised_shell [of "act (Emit ObsTimeout) s" QUIT None]
  by (simp add: ch_onTimeout_def same_shell_def)

lemma run_listener_shell: "same_shell s (fst (run_listener l a s))"
proof (cases l)
  case OnClose
  with emit_obs_shell [of "s\<lparr>socket := None\<rparr>" ObsClose] show ?thesis
    by (auto simp: same_shell_def)
qed (simp_all add: cmd_onClose_shell cmd_onError_shell ch_onReceive_shell emit_obs_shell
       ch_onTimeout_shell settle_def)

lemma call_all_shell: "same_shell s (fst (call_all k ls a s))"
proof (induction ls arbitrary: s)
  case Nil
  then show ?case by simp
next
  case (Cons x ls)
  obtain e l is_once where x: "x = (e, l, is_once)" by (cases x)
  let ?s1 = "if is_once then upd_sock k (\<lambda>x. x\<lparr>lst := remove1 (e, l, True) (lst x)\<rparr>) s else s"
  have v1: "same_shell s ?s1" by (simp add: same_shell_upd)
  show ?case
  proof (cases "run_listener l a ?s1")
    case (Pair s2 r)
    with run_listener_shell [of ?s1 l a] v1 have "same_shell s s2"
      by (auto intro: same_shell_trans)
    with Pair x Cons.IH [of s2] show ?thesis
      by (cases r) (auto simp: Let_def intro: same_shell_trans)
  qed
qed

lemma sock_emit_shell: "same_shell s (sock_emit k e a s)"
proof (cases "call_all k (listeners e (sockets s ! k)) a s")
  case (Pair s1 r)
  with call_all_shell [of s k "listeners e (sockets s ! k)" a] have "same_shell s s1" by simp
  with Pair show ?thesis
    by (cases r) (auto simp: sock_emit_def Let_def intro: same_shell_act)
qed

lemma shell_nth:
  assumes "same_shell s s'"
  shows "length (sockets s') = length (sockets s)"
    and "j < length (sockets s) \<Longrightarrow> shell (sockets s' ! j) = shell (sockets s ! j)"
proof -
  from assms have sh: "map shell (sockets s') = map shell (sockets s)"
    by (simp add: same_shell_def)
  then show len: "length (sockets s') = length (sockets s)"
    by (rule map_eq_imp_length_eq)
  assume "j < length (sockets s)"
  with sh len show "shell (sockets s' ! j) = shell (sockets s ! j)"
    by (metis nth_map)
qed

lemma sock_emit_other:
  assumes "\<forall>x\<in>set (listeners e (sockets s ! k)). \<not> mentions p x" and "p < promises s"
    and "lines_of p s = []"
  shows "same_view p s (sock_emit k e a s)"
proof (cases "call_all k (listeners e (sockets s ! k)) a s")
  case (Pair s1 r)
  with call_all_other [of "listeners e (sockets s ! k)" p s k a] assms
  have "same_view p s s1" by simp
  then have "same_view p s (act (Uncaught x) s1)" for x
    by (simp add: same_view_def calls_act)
  with Pair \<open>same_view p s s1\<close> show ?thesis
    by (cases r) (auto simp: sock_emit_def Let_def same_view_def calls_act)
qed

lemma confinedD:
  "confined p A s \<Longrightarrow> k < length (sockets s) \<Longrightarrow> \<not> closed (sockets s ! k)
   \<Longrightarrow> x \<in> set (lst (sockets s ! k)) \<Longrightarrow> mentions p x \<Longrightarrow> (k, fst x) \<in> A"
  unfolding confined_def by blast

lemma confined_lt: "confined p A s \<Longrightarrow> p < promises s"
  and confined_lines: "confined p A s \<Longrightarrow> lines_of p s = []"
  and confined_jobs: "confined p A s \<Longrightarrow> jobs_of p (jobs s) = []"
  unfolding confined_def by blast+

lemma confined_upd:
  assumes "confined p A s"
    and "shell (f (sockets s ! k)) = shell (sockets s ! k)"
    and "set (filter (mentions p) (lst (f (sockets s ! k))))
           \<subseteq> set (filter (mentions p) (lst (sockets s ! k)))"
  shows "confined p A (upd_sock k f s)"
proof -
  have sh: "shell (sockets (upd_sock k f s) ! j) = shell (sockets s ! j)" for j
    using assms(2) by (simp add: upd_sock_nth)
  have en: "mentions p x \<Longrightarrow> x \<in> set (lst (sockets (upd_sock k f s) ! j))
            \<Longrightarrow> x \<in> set (lst (sockets s ! j))" for x j
    using assms(3) by (auto simp: upd_sock_nth split: if_splits)
  have f: "closed (sockets (upd_sock k f s) ! j) = closed (sockets s ! j)"
    "fired (sockets (upd_sock k f s) ! j) = fired (sockets s ! j)"
    "cb (sockets (upd_sock k f s) ! j) = cb (sockets s ! j)" for j
    using sh [of j] by (metis shell_fields)+
  from assms(1) show ?thesis
    unfolding confined_def using en by (auto simp: f jobs_of_def)
qed

lemma confined_on:
  "confined p A s \<Longrightarrow> promise_of l \<noteq> Some p \<Longrightarrow> confined p A (upd_sock k (on e l) s)"
  "confined p A s \<Longrightarrow> promise_of l \<noteq> Some p \<Longrightarrow> confined p A (upd_sock k (once e l) s)"
  by (rule confined_upd; simp add: once_other)+

lemma confined_removeAll:
  "confined p A s \<Longrightarrow> confined p A (upd_sock k (removeAllListeners e) s)"
  by (rule confined_upd) (auto simp: removeAllListeners_def)

lemma confined_act:
  "confined p A s \<Longrightarrow> confined p A (act a s)"
  by (simp add: confined_def)

lemma confined_wire: "confined p A s \<Longrightarrow> confined p A (wire k s)"
  unfolding wire_def by (intro confined_on confined_removeAll) simp_all

lemma confined_frame:
  assumes "confined p A s" and "same_view p s s'" and "same_shell s s'"
  shows "confined p A s'"
proof -
  from assms(3) have sh: "map shell (sockets s') = map shell (sockets s)"
    by (simp add: same_shell_def)
  then have len: "length (sockets s') = length (sockets s)"
    by (rule map_eq_imp_length_eq)
  have shk: "shell (sockets s' ! k) = shell (sockets s ! k)" if "k < length (sockets s)" for k
    using sh that len by (metis nth_map)
  have f: "closed (sockets s' ! k) = closed (sockets s ! k)"
    "fired (sockets s' ! k) = fired (sockets s ! k)"
    "cb (sockets s' ! k) = cb (sockets s ! k)" if "k < length (sockets s)" for k
    using shk [OF that] by (metis shell_fields)+
  from assms(2) have "entries_of p s' = entries_of p s" by (simp add: same_view_def)
  then have en: "filter (mentions p) (lst (sockets s' ! k)) = filter (mentions p) (lst (sockets s ! k))"
    if "k < length (sockets s)" for k
    using that len unfolding entries_of_def by (metis (no_types, lifting) nth_map)
  have en': "mentions p x \<Longrightarrow> x \<in> set (lst (sockets s' ! k)) \<Longrightarrow> x \<in> set (lst (sockets s ! k))"
    if "k < length (sockets s)" for k x
  proof -
    assume "mentions p x" "x \<in> set (lst (sockets s' ! k))"
    then have "x \<in> set (filter (mentions p) (lst (sockets s' ! k)))" by simp
    with en [OF that] show ?thesis by simp
  qed
  from assms(1,2) show ?thesis
    unfolding confined_def using en' by (auto simp: len f same_view_def)
qed

lemma calls_act_Uncaught [simp]: "calls p (act (Uncaught x) s) = calls p s"
  by (simp add: calls_act)

lemma confined_callback:
  assumes "confined p A s" and "c \<noteq> TlsCb p"
  shows "confined p A (fst (run_callback c s)) \<and> calls p (fst (run_callback c s)) = calls p s"
proof (cases c)
  case (ConnectCb b)
  from assms(1) have c1: "confined p A (s\<lparr>is_secure := b\<rparr>)"
    by (simp add: confined_def lines_of_def)
  have "calls p (s\<lparr>is_secure := b\<rparr>) = calls p s" by (simp add: calls_def)
  with c1 ConnectCb show ?thesis
    using confined_wire [OF c1]
    by (auto simp: run_callback_def Let_def emit_obs_def confined_act calls_act wire_def
        split: option.splits)
next
  case (TlsCb q)
  with assms have "q \<noteq> p" by simp
  from assms(1) have c1: "confined p A (s\<lparr>is_secure := True\<rparr>)"
    by (simp add: confined_def lines_of_def)
  have "calls p (s\<lparr>is_secure := True\<rparr>) = calls p s" by (simp add: calls_def)
  with c1 TlsCb \<open>q \<noteq> p\<close> show ?thesis
    using confined_wire [OF c1]
    by (auto simp: run_callback_def Let_def settle_def confined_act calls_act wire_def
        split: option.splits)
qed

lemma confined_mark:
  "confined p A s \<Longrightarrow> confined p A (upd_sock k (\<lambda>x. x\<lparr>closed := True\<rparr>) s)"
  "confined p A s \<Longrightarrow> confined p A (upd_sock k (\<lambda>x. x\<lparr>fired := True\<rparr>) s)"
  "confined p A s \<Longrightarrow> confined p A (upd_sock k (\<lambda>x. x\<lparr>destroyed := True\<rparr>) s)"
  unfolding confined_def by (auto simp: upd_sock_nth jobs_of_def)

lemma confined_connect:
  assumes "confined p A s"
  shows "confined p A (connectAsPromised h s) \<and> calls p (connectAsPromised h s) = calls p s"
proof (cases "socket s")
  case (Some k)
  with assms show ?thesis
    by (auto simp: connectAsPromised_def Let_def settle_def confined_def calls_act lines_of_def)
next
  case None
  let ?k = "length (sockets s)"
  let ?s1 = "(new_promise s)\<lparr>sockets := sockets s @
      [createSocket (config_secure s) (ConnectCb (config_secure s)) None (new_promise s)],
      socket := Some ?k\<rparr>"
  from assms have c1: "confined p A ?s1"
    unfolding confined_def
    by (auto simp: nth_append createSocket_def lines_of_def less_Suc_eq)
  from assms have ne: "promises s \<noteq> p" by (auto simp: confined_def)
  have v: "same_view p ?s1 (resolveCommand (promises s) h ?s1)"
    using ne by (intro resolveCommand_other)
  have "calls p ?s1 = calls p s" by (simp add: calls_def)
  with None show ?thesis
    using confined_frame [OF c1 v resolveCommand_shell] v
    by (simp add: connectAsPromised_def Let_def same_view_def)
qed

lemma confined_write:
  assumes "confined p A s"
  shows "confined p A (writeAsPromised d h s) \<and> calls p (writeAsPromised d h s) = calls p s"
proof -
  from assms have "p < promises s" by (simp add: confined_def)
  then have v: "same_view p s (writeAsPromised d h s)" by (rule writeAsPromised_other)
  with confined_frame [OF assms v writeAsPromised_shell] show ?thesis
    by (simp add: same_view_def)
qed

lemma confined_close:
  assumes "confined p A s"
  shows "confined p A (closeAsPromised s) \<and> calls p (closeAsPromised s) = calls p s"
proof (cases "socket s")
  case None
  with assms show ?thesis
    by (auto simp: closeAsPromised_def Let_def settle_def confined_def calls_act lines_of_def)
next
  case (Some k)
  from assms have ne: "promise_of (PromiseResolve (promises s)) \<noteq> Some p"
    by (auto simp: confined_def)
  from assms have c0: "confined p A (new_promise s)"
    by (auto simp: confined_def)
  have "confined p A (act (Destroy k) (upd_sock k (\<lambda>x. x\<lparr>destroyed := True\<rparr>)
          (upd_sock k (once EvClose (PromiseResolve (promises s))) (new_promise s))))"
    by (intro confined_act confined_mark confined_on c0 ne)
  then have "confined p A ((act (Destroy k) (upd_sock k (\<lambda>x. x\<lparr>destroyed := True\<rparr>)
          (upd_sock k (once EvClose (PromiseResolve (promises s))) (new_promise s))))\<lparr>socket := None\<rparr>)"
    by (simp add: confined_def lines_of_def)
  with Some show ?thesis
    by (simp add: closeAsPromised_def Let_def calls_act)
qed

lemma confined_negotiate:
  assumes "confined p A s"
  shows "confined p A (negotiateTLSAsPromised s)
         \<and> calls p (negotiateTLSAsPromised s) = calls p s"
proof (cases "socket s")
  case None
  with assms show ?thesis
    by (auto simp: negotiateTLSAsPromised_def Let_def settle_def confined_def calls_act
        lines_of_def)
next
  case (Some k)
  from assms have ne: "promises s \<noteq> p" by (auto simp: confined_def)
  from assms have c0: "confined p A (new_promise s)"
    by (auto simp: confined_def)
  let ?s1 = "upd_sock k (removeAllListeners EvTimeout)
               (upd_sock k (removeAllListeners EvError)
                 (upd_sock k (removeAllListeners EvEnd)
                   (upd_sock k (removeAllListeners EvData)
                     (upd_sock k (removeAllListeners EvClose) (new_promise s)))))"
  have c1: "confined p A ?s1" by (intro confined_removeAll c0)
  let ?s2 = "?s1\<lparr>sockets := sockets ?s1 @ [createSocket True (TlsCb (promises s)) (Some k) ?s1],
                 socket := Some (length (sockets ?s1))\<rparr>"
  from c1 ne have c2: "confined p A ?s2"
    unfolding confined_def
    by (auto simp: nth_append createSocket_def lines_of_def less_Suc_eq)
  have "confined p A (upd_sock (length (sockets ?s1)) (on EvError (PromiseReject (promises s))) ?s2)"
    using ne by (intro confined_on c2) simp
  moreover have "calls p ?s2 = calls p s" by (simp add: calls_def)
  ultimately show ?thesis using Some
    by (simp add: negotiateTLSAsPromised_def Let_def)
qed

lemma confined_sock_emit:
  assumes "confined p A s" and "(k, e) \<notin> A" and "live k s"
  shows "confined p A (sock_emit k e a s) \<and> calls p (sock_emit k e a s) = calls p s"
proof -
  have nm: "\<forall>x\<in>set (listeners e (sockets s ! k)). \<not> mentions p x"
  proof
    fix x assume "x \<in> set (listeners e (sockets s ! k))"
    then have x: "x \<in> set (lst (sockets s ! k))" "fst x = e" by (auto simp: listeners_def)
    show "\<not> mentions p x"
    proof
      assume "mentions p x"
      with confinedD [OF assms(1), of k x] assms(3) x have "(k, e) \<in> A"
        by (simp add: live_def)
      with assms(2) show False by simp
    qed
  qed
  from assms(1) have "p < promises s" "lines_of p s = []"
    by (rule confined_lt, rule confined_lines)
  with nm have v: "same_view p s (sock_emit k e a s)" by (intro sock_emit_other)
  with confined_frame [OF assms(1) v sock_emit_shell] show ?thesis
    by (simp add: same_view_def)
qed

lemma confined_Connected:
  assumes "confined p A s"
  shows "confined p A (dispatch (Connected k) s)
         \<and> calls p (dispatch (Connected k) s) = calls p s"
proof (cases "live k s \<and> \<not> fired (sockets s ! k)")
  case True
  with assms have ne: "cb (sockets s ! k) \<noteq> TlsCb p"
    by (auto simp: confined_def live_def)
  let ?s0 = "upd_sock k (\<lambda>x. x\<lparr>fired := True\<rparr>) s"
  from assms have "confined p A ?s0" by (rule confined_mark)
  from confined_callback [OF this ne]
  have r: "confined p A (fst (run_callback (cb (sockets s ! k)) ?s0))"
    "calls p (fst (run_callback (cb (sockets s ! k)) ?s0)) = calls p s"
    by simp_all
  obtain s1 r' where rc: "run_callback (cb (sockets s ! k)) ?s0 = (s1, r')"
    by (cases "run_callback (cb (sockets s ! k)) ?s0")
  with r have "confined p A s1" "calls p s1 = calls p s" by simp_all
  with rc True show ?thesis
    by (cases r') (simp_all add: confined_act)
next
  case False
  then have "dispatch (Connected k) s = s" by (cases "live k s") simp_all
  with assms show ?thesis by (simp only:)
qed

lemma confined_SockClose:
  assumes "confined p A s" and "(k, EvClose) \<notin> A"
  shows "confined p A (dispatch (SockClose k hadError) s)
         \<and> calls p (dispatch (SockClose k hadError) s) = calls p s"
proof (cases "live k s")
  case True
  let ?s0 = "upd_sock k (\<lambda>x. x\<lparr>closed := True\<rparr>) s"
  from assms(1) have c0: "confined p A ?s0" by (rule confined_mark)
  have nm: "\<forall>x\<in>set (listeners EvClose (sockets ?s0 ! k)). \<not> mentions p x"
  proof
    fix x assume "x \<in> set (listeners EvClose (sockets ?s0 ! k))"
    with True have x: "x \<in> set (lst (sockets s ! k))" "fst x = EvClose"
      by (auto simp: listeners_def upd_sock_nth live_def)
    show "\<not> mentions p x"
    proof
      assume "mentions p x"
      with confinedD [OF assms(1), of k x] True x have "(k, EvClose) \<in> A"
        by (simp add: live_def)
      with assms(2) show False by simp
    qed
  qed
  from c0 have "p < promises ?s0" "lines_of p ?s0 = []"
    by (rule confined_lt, rule confined_lines)
  with nm have v: "same_view p ?s0 (sock_emit k EvClose (Bool hadError) ?s0)"
    by (intro sock_emit_other)
  then have "calls p (sock_emit k EvClose (Bool hadError) ?s0) = calls p ?s0"
    unfolding same_view_def by (elim conjE)
  then have k: "calls p (sock_emit k EvClose (Bool hadError) ?s0) = calls p s"
    by (simp only: calls_simps)
  have d: "dispatch (SockClose k hadError) s = sock_emit k EvClose (Bool hadError) ?s0"
    using True by (simp only: dispatch.simps if_True)
  from confined_frame [OF c0 v sock_emit_shell] k show ?thesis
    unfolding d by (rule conjI)
next
  case False
  then have "dispatch (SockClose k hadError) s = s" by simp
  with assms(1) show ?thesis by (simp only:)
qed

lemma confined_sock_event:
  assumes "confined p A s" and "(k, e) \<notin> A"
  shows "confined p A (if live k s then sock_emit k e a s else s)
         \<and> calls p (if live k s then sock_emit k e a s else s) = calls p s"
  using confined_sock_emit [OF assms, of a] assms(1) by (cases "live k s") simp_all

lemma confined_dispatch:
  assumes "confined p A s" and "\<forall>t. target e = Some t \<longrightarrow> t \<notin> A"
  shows "confined p A (dispatch e s) \<and> calls p (dispatch e s) = calls p s"
proof (cases e)
  case (Connected k)
  then show ?thesis using confined_Connected [OF assms(1), of k] by (simp only:)
next
  case (SockClose k hadError)
  with assms(2) have "(k, EvClose) \<notin> A" by simp
  from confined_SockClose [OF assms(1) this, of hadError] SockClose show ?thesis
    by (simp only:)
next
  case (SockData k ls)
  with assms(2) have "(k, EvData) \<notin> A" by simp
  from confined_sock_event [OF assms(1) this, of "Lines ls"] show ?thesis
    unfolding SockData dispatch.simps .
next
  case (SockEnd k)
  with assms(2) have "(k, EvEnd) \<notin> A" by simp
  from confined_sock_event [OF assms(1) this, of Undefined] show ?thesis
    unfolding SockEnd dispatch.simps .
next
  case (SockError k x)
  with assms(2) have "(k, EvError) \<notin> A" by simp
  from confined_sock_event [OF assms(1) this, of x] show ?thesis
    unfolding SockError dispatch.simps .
next
  case (SockTimeout k)
  with assms(2) have "(k, EvTimeout) \<notin> A" by simp
  from confined_sock_event [OF assms(1) this, of Undefined] show ?thesis
    unfolding SockTimeout dispatch.simps .
next
  case (CallConnect h)
  from confined_connect [OF assms(1), of h] show ?thesis
    unfolding CallConnect dispatch.simps .
next
  case CallClose
  from confined_close [OF assms(1)] show ?thesis
    unfolding CallClose dispatch.simps .
next
  case (CallWrite d h)
  from confined_write [OF assms(1), of d h] show ?thesis
    unfolding CallWrite dispatch.simps .
next
  case CallNegotiateTLS
  from confined_negotiate [OF assms(1)] show ?thesis
    unfolding CallNegotiateTLS dispatch.simps .
qed

lemma confined_step:
  assumes "confined p A s" and "\<forall>t. target e = Some t \<longrightarrow> t \<notin> A"
  shows "confined p A (step s e) \<and> calls p (step s e) = calls p s"
proof -
  let ?s1 = "dispatch e s"
  from confined_dispatch [OF assms] have c: "confined p A ?s1" and k: "calls p ?s1 = calls p s"
    by simp_all
  from c have j: "jobs_of p (jobs ?s1) = []" by (simp add: confined_def)
  have fr: "sockets (step s e) = sockets ?s1" "promises (step s e) = promises ?s1"
    "line_listeners (step s e) = line_listeners ?s1" "jobs (step s e) = []"
    using drain_frame [of "jobs ?s1" "?s1\<lparr>jobs := []\<rparr>"] by (simp_all add: step_def Let_def)
  from c have "confined p A (step s e)"
    unfolding confined_def by (simp add: fr lines_of_def jobs_of_def)
  moreover have "calls p (step s e) = calls p s"
    using drain_other [OF j, of "?s1\<lparr>jobs := []\<rparr>"] k by (simp add: step_def Let_def)
  ultimately show ?thesis by simp
qed

lemma confined_run:
  assumes "confined p A s" and "\<forall>e\<in>set es. \<forall>t. target e = Some t \<longrightarrow> t \<notin> A"
  shows "confined p A (run s es) \<and> calls p (run s es) = calls p s"
  using assms
proof (induction es arbitrary: s)
  case Nil
  then show ?case by (simp add: run_def)
next
  case (Cons e es)
  from Cons.prems have "confined p A (step s e)" "calls p (step s e) = calls p s"
    using confined_step [of p A s e] by simp_all
  with Cons.IH [of "step s e"] Cons.prems show ?case by (simp add: run_def)
qed

lemma step_frame:
  "sockets (step s e) = sockets (dispatch e s)"
  "promises (step s e) = promises (dispatch e s)"
  "line_listeners (step s e) = line_listeners (dispatch e s)"
  "jobs (step s e) = []"
  "socket (step s e) = socket (dispatch e s)"
  "is_secure (step s e) = is_secure (dispatch e s)"
  unfolding step_def Let_def using drain_frame [of "jobs (dispatch e s)" "dispatch e s\<lparr>jobs := []\<rparr>"]
  by simp_all

lemma call_all_append:
  "call_all k (xs @ ys) a s =
     (case call_all k xs a s of (s1, None) \<Rightarrow> call_all k ys a s1 | (s1, Some x) \<Rightarrow> (s1, Some x))"
proof (induction xs arbitrary: s)
  case Nil
  then show ?case by simp
next
  case (Cons x xs)
  obtain e l is_once where x: "x = (e, l, is_once)" by (cases x)
  let ?s1 = "if is_once then upd_sock k (\<lambda>x. x\<lparr>lst := remove1 (e, l, True) (lst x)\<rparr>) s else s"
  show ?case
  proof (cases "run_listener l a ?s1")
    case (Pair s2 r)
    with x Cons.IH [of s2] show ?thesis by (cases r) (simp_all add: Let_def)
  qed
qed

lemma close_listener_run:
  "kind l = EvClose \<Longrightarrow>
   snd (run_listener l a s) = None
   \<and> socket (fst (run_listener l a s)) = (if l = OnClose then None else socket s)
   \<and> jobs (fst (run_listener l a s)) = jobs s"
  by (cases l) (auto simp: cmd_onClose_def emit_obs_def settle_def Let_def split: option.splits)

lemma close_list_run:
  assumes "\<forall>x\<in>set ls. kind (fst (snd x)) = EvClose"
  shows "snd (call_all k ls a s) = None
         \<and> socket (fst (call_all k ls a s))
             = (if OnClose \<in> (\<lambda>x. fst (snd x)) ` set ls then None else socket s)
         \<and> jobs (fst (call_all k ls a s)) = jobs s"
  using assms
proof (induction ls arbitrary: s)
  case Nil
  then show ?case by simp
next
  case (Cons x ls)
  obtain e l is_once where x: "x = (e, l, is_once)" by (cases x)
  let ?s1 = "if is_once then upd_sock k (\<lambda>x. x\<lparr>lst := remove1 (e, l, True) (lst x)\<rparr>) s else s"
  from Cons.prems x have kl: "kind l = EvClose" by simp
  have s1: "socket ?s1 = socket s" "jobs ?s1 = jobs s" by simp_all
  obtain s2 r where rl: "run_listener l a ?s1 = (s2, r)" by (cases "run_listener l a ?s1")
  with close_listener_run [OF kl, of a ?s1] s1
  have r: "r = None" "socket s2 = (if l = OnClose then None else socket s)" "jobs s2 = jobs s"
    by simp_all
  from Cons.prems have "\<forall>x\<in>set ls. kind (fst (snd x)) = EvClose" by simp
  from Cons.IH [OF this, of s2] rl r x show ?case
    by (auto simp: Let_def)
qed

lemma unused_confined:
  assumes "unused p s" and "p < promises s"
  shows "confined p A s"
  unfolding confined_def using assms
  by (auto simp: unused_def filter_empty_conv)

section \<open>Well-formedness is invariant\<close>

lemma entry_ok_mono: "entry_ok n y \<Longrightarrow> n \<le> m \<Longrightarrow> entry_ok m y"
  by (auto simp: entry_ok_def)

lemma sock_ok_mono: "sock_ok n x \<Longrightarrow> n \<le> m \<Longrightarrow> sock_ok m x"
  by (auto simp: sock_ok_def intro: entry_ok_mono)

lemma wf_act:
  "wf_state s \<Longrightarrow> (\<And>p out. a = Settle p out \<Longrightarrow> p < promises s) \<Longrightarrow> wf_state (act a s)"
  unfolding wf_state_def by (cases a) (auto simp: calls_act split: if_splits)

lemma wf_settle: "wf_state s \<Longrightarrow> p < promises s \<Longrightarrow> wf_state (settle p out s)"
  unfolding settle_def by (rule wf_act) simp_all

lemma wf_upd:
  assumes "wf_state s" and "sock_ok (promises s) (sockets s ! k) \<Longrightarrow> sock_ok (promises s) (f (sockets s ! k))"
  shows "wf_state (upd_sock k f s)"
proof -
  have "sock_ok (promises s) x" if "x \<in> set (sockets (upd_sock k f s))" for x
  proof -
    from that obtain j where j: "j < length (sockets s)" "x = sockets (upd_sock k f s) ! j"
      by (auto simp: in_set_conv_nth)
    then have "sockets s ! j \<in> set (sockets s)" by simp
    with assms(1) have "sock_ok (promises s) (sockets s ! j)" by (simp add: wf_state_def)
    with assms(2) j show ?thesis by (auto simp: upd_sock_nth)
  qed
  with assms(1) show ?thesis unfolding wf_state_def by simp
qed

lemma wf_on:
  "wf_state s \<Longrightarrow> entry_ok (promises s) (e, l, False) \<Longrightarrow> wf_state (upd_sock k (on e l) s)"
  "wf_state s \<Longrightarrow> entry_ok (promises s) (e, l, True) \<Longrightarrow> wf_state (upd_sock k (once e l) s)"
  by (rule wf_upd; simp add: sock_ok_def on_def once_def)+

lemma set_remove_first: "set (remove_first P xs) \<subseteq> set xs"
  by (induction xs) auto

lemma set_remove_last: "set (remove_last P xs) \<subseteq> set xs"
  unfolding remove_last_def using set_remove_first [of P "rev xs"] by simp

lemma wf_remove:
  "wf_state s \<Longrightarrow> wf_state (upd_sock k (removeListener e l) s)"
  "wf_state s \<Longrightarrow> wf_state (upd_sock k (removeAllListeners e) s)"
  "wf_state s \<Longrightarrow> wf_state (upd_sock k (\<lambda>x. x\<lparr>lst := remove1 y (lst x)\<rparr>) s)"
proof -
  assume w: "wf_state s"
  show "wf_state (upd_sock k (removeListener e l) s)"
    using set_remove_last [of "\<lambda>x. fst x = e \<and> fst (snd x) = l" "lst (sockets s ! k)"]
    by (intro wf_upd w) (auto simp: sock_ok_def removeListener_def)
  show "wf_state (upd_sock k (removeAllListeners e) s)"
    by (intro wf_upd w) (auto simp: sock_ok_def removeAllListeners_def)
  show "wf_state (upd_sock k (\<lambda>x. x\<lparr>lst := remove1 y (lst x)\<rparr>) s)"
    by (intro wf_upd w) (auto simp: sock_ok_def dest: notin_set_remove1)
qed

lemma wf_mark:
  "wf_state s \<Longrightarrow> wf_state (upd_sock k (\<lambda>x. x\<lparr>closed := True\<rparr>) s)"
  "wf_state s \<Longrightarrow> wf_state (upd_sock k (\<lambda>x. x\<lparr>fired := True\<rparr>) s)"
  "wf_state s \<Longrightarrow> wf_state (upd_sock k (\<lambda>x. x\<lparr>destroyed := True\<rparr>) s)"
  by (rule wf_upd; simp add: sock_ok_def)+

lemma wf_new_promise: "wf_state s \<Longrightarrow> wf_state (new_promise s)"
  unfolding wf_state_def
  by (auto simp: less_Suc_eq intro: sock_ok_mono [where n = "promises s"])

lemma wf_unlisten: "wf_state s \<Longrightarrow> wf_state (unlisten_line c s)"
  unfolding wf_state_def unlisten_line_def
  using set_remove_last [of "\<lambda>x. fst x = c" "line_listeners s"]
  by (auto simp: calls_def)

lemma wf_fields:
  "wf_state s \<Longrightarrow> wf_state (s\<lparr>socket := None\<rparr>)"
  "wf_state s \<Longrightarrow> wf_state (s\<lparr>is_secure := b\<rparr>)"
  "wf_state s \<Longrightarrow> wf_state (s\<lparr>jobs := []\<rparr>)"
  by (simp_all add: wf_state_def calls_def)

lemma wf_resolveCommand:
  "wf_state s \<Longrightarrow> p < promises s \<Longrightarrow> wf_state (resolveCommand p h s)"
proof (cases "socket s")
  case None
  assume "wf_state s" "p < promises s"
  with None show ?thesis by (simp add: resolveCommand_def wf_settle)
next
  case (Some k)
  assume w: "wf_state s" and p: "p < promises s"
  have "wf_state (upd_sock k (once EvError (CmdOnError p)) (upd_sock k (once EvClose (CmdOnClose p)) s))"
    using p by (intro wf_on w) (simp_all add: entry_ok_def)
  then show ?thesis
    using Some p unfolding resolveCommand_def Let_def
    by (simp add: wf_state_def calls_def)
qed

lemma wf_write: "wf_state s \<Longrightarrow> wf_state (writeAsPromised d h s)"
proof -
  assume w: "wf_state s"
  have "wf_state (resolveCommand (promises s) h (new_promise s))"
    by (intro wf_resolveCommand wf_new_promise w) simp
  then have "wf_state (act (Pipe k d) (resolveCommand (promises s) h (new_promise s)))" for k
    by (rule wf_act) simp
  moreover have "wf_state (settle (promises s) (Reject (Error ''Socket has closed'')) (new_promise s))"
    by (intro wf_settle wf_new_promise w) simp
  ultimately show ?thesis
    by (simp add: writeAsPromised_def Let_def split: option.splits)
qed

lemma wf_append_socket:
  assumes "wf_state s" and "sock_ok (promises s) x"
  shows "wf_state (s\<lparr>sockets := sockets s @ [x], socket := Some (length (sockets s))\<rparr>)"
  using assms unfolding wf_state_def by (auto simp: calls_def)

lemma wf_connect: "wf_state s \<Longrightarrow> wf_state (connectAsPromised h s)"
proof (cases "socket s")
  case (Some k)
  assume "wf_state s"
  then have "wf_state (settle (promises s) (Resolve Undefined) (new_promise s))"
    by (intro wf_settle wf_new_promise) simp_all
  with Some show ?thesis by (simp add: connectAsPromised_def Let_def)
next
  case None
  assume w: "wf_state s"
  let ?x = "createSocket (config_secure s) (ConnectCb (config_secure s)) None (new_promise s)"
  have "sock_ok (promises (new_promise s)) ?x" by (simp add: sock_ok_def createSocket_def)
  from wf_append_socket [OF wf_new_promise [OF w] this]
  have "wf_state (resolveCommand (promises s) h
          ((new_promise s)\<lparr>sockets := sockets s @ [?x], socket := Some (length (sockets s))\<rparr>))"
    by (intro wf_resolveCommand) simp_all
  with None show ?thesis by (simp add: connectAsPromised_def Let_def)
qed

lemma wf_close: "wf_state s \<Longrightarrow> wf_state (closeAsPromised s)"
proof (cases "socket s")
  case None
  assume "wf_state s"
  then have "wf_state (settle (promises s) (Resolve Undefined) (new_promise s))"
    by (intro wf_settle wf_new_promise) simp_all
  with None show ?thesis by (simp add: closeAsPromised_def Let_def)
next
  case (Some k)
  assume w: "wf_state s"
  have "wf_state ((act (Destroy k) (upd_sock k (\<lambda>x. x\<lparr>destroyed := True\<rparr>)
          (upd_sock k (once EvClose (PromiseResolve (promises s))) (new_promise s))))\<lparr>socket := None\<rparr>)"
    by (intro wf_fields wf_act wf_mark wf_on wf_new_promise w) (simp_all add: entry_ok_def)
  with Some show ?thesis by (simp add: closeAsPromised_def Let_def)
qed

lemma wf_negotiate: "wf_state s \<Longrightarrow> wf_state (negotiateTLSAsPromised s)"
proof (cases "socket s")
  case None
  assume "wf_state s"
  then have "wf_state (settle (promises s)
      (Reject (TypeError ''Cannot read property removeAllListeners of null'')) (new_promise s))"
    by (intro wf_settle wf_new_promise) simp_all
  with None show ?thesis by (simp add: negotiateTLSAsPromised_def Let_def)
next
  case (Some k)
  assume w: "wf_state s"
  let ?s1 = "upd_sock k (removeAllListeners EvTimeout)
               (upd_sock k (removeAllListeners EvError)
                 (upd_sock k (removeAllListeners EvEnd)
                   (upd_sock k (removeAllListeners EvData)
                     (upd_sock k (removeAllListeners EvClose) (new_promise s)))))"
  have w1: "wf_state ?s1" by (intro wf_remove wf_new_promise w)
  let ?x = "createSocket True (TlsCb (promises s)) (Some k) ?s1"
  have "sock_ok (promises ?s1) ?x" by (simp add: sock_ok_def createSocket_def)
  from wf_append_socket [OF w1 this]
  have "wf_state (upd_sock (length (sockets ?s1)) (on EvError (PromiseReject (promises s)))
          (?s1\<lparr>sockets := sockets ?s1 @ [?x], socket := Some (length (sockets ?s1))\<rparr>))"
    by (intro wf_on) (simp_all add: entry_ok_def)
  with Some show ?thesis by (simp add: negotiateTLSAsPromised_def Let_def)
qed

lemma wf_wire: "wf_state s \<Longrightarrow> wf_state (wire k s)"
  unfolding wire_def by (intro wf_on wf_remove) (simp_all add: entry_ok_def)

lemma wf_emit_obs: "wf_state s \<Longrightarrow> wf_state (fst (emit_obs x s))"
  by (cases x) (auto simp: emit_obs_def intro: wf_act)

lemma wf_callback:
  assumes "wf_state s" and "\<And>p. c = TlsCb p \<Longrightarrow> p < promises s"
  shows "wf_state (fst (run_callback c s))"
proof (cases c)
  case (ConnectCb b)
  with assms(1) show ?thesis
    by (auto simp: run_callback_def Let_def split: option.splits
        intro!: wf_emit_obs wf_wire wf_fields)
next
  case (TlsCb p)
  have "promises (wire k t) = promises t" for k t by (simp add: wire_def)
  with TlsCb assms show ?thesis
    by (auto simp: run_callback_def Let_def split: option.splits
        intro!: wf_settle wf_wire wf_fields)
qed

lemma wf_cmd_onClose: "wf_state s \<Longrightarrow> c < promises s \<Longrightarrow> wf_state (fst (cmd_onClose c s))"
  by (auto simp: cmd_onClose_def Let_def split: option.splits
      intro!: wf_settle wf_unlisten wf_remove)

lemma wf_cmd_onError: "wf_state s \<Longrightarrow> c < promises s \<Longrightarrow> wf_state (fst (cmd_onError c a s))"
  by (auto simp: cmd_onError_def Let_def split: option.splits
      intro!: wf_settle wf_unlisten wf_remove)

lemma wf_add_job:
  "wf_state s \<Longrightarrow> job_promise j < promises s \<Longrightarrow> wf_state (s\<lparr>jobs := jobs s @ [j]\<rparr>)"
  by (simp add: wf_state_def calls_def)

lemma wf_cmd_onLine:
  "wf_state s \<Longrightarrow> c < promises s \<Longrightarrow> wf_state (fst (cmd_onLine c h l s))"
  by (auto simp: cmd_onLine_def Let_def split: option.splits
      intro!: wf_unlisten wf_remove wf_add_job)

lemma promises_mono_listener: "promises s \<le> promises (fst (run_listener l a s))"
  using run_listener_shell [of s l a] by (simp add: same_shell_def)

lemma wf_emit_line:
  "wf_state s \<Longrightarrow> \<forall>x\<in>set ls. fst x < promises s \<Longrightarrow> wf_state (fst (emit_line ls l s))
     \<and> promises (fst (emit_line ls l s)) = promises s"
proof (induction ls arbitrary: s)
  case Nil
  then show ?case by simp
next
  case (Cons x ls)
  obtain c h where x: "x = (c, h)" by (cases x)
  obtain s1 r where r: "cmd_onLine c h l s = (s1, r)" by (cases "cmd_onLine c h l s")
  from Cons.prems x have "wf_state (fst (cmd_onLine c h l s))" by (intro wf_cmd_onLine) simp_all
  with r have w1: "wf_state s1" by simp
  have p1: "promises s1 = promises s"
    using r by (auto simp: cmd_onLine_def Let_def split: option.splits if_splits)
  from Cons.IH [OF w1] Cons.prems p1 r x w1 show ?case by (cases r) auto
qed

lemma wf_feed:
  "wf_state s \<Longrightarrow> wf_state (fst (feed ls s)) \<and> promises (fst (feed ls s)) = promises s"
proof (induction ls arbitrary: s)
  case Nil
  then show ?case by simp
next
  case (Cons l ls)
  obtain s1 r where r: "emit_line (line_listeners s) l s = (s1, r)"
    by (cases "emit_line (line_listeners s) l s")
  from Cons.prems have "\<forall>x\<in>set (line_listeners s). fst x < promises s"
    by (simp add: wf_state_def)
  from wf_emit_line [OF Cons.prems this, of l] r have "wf_state s1" "promises s1 = promises s"
    by simp_all
  with Cons.IH [of s1] r show ?case by (cases r) auto
qed

lemma wf_onReply_all: "wf_state s \<Longrightarrow> wf_state (onReply_all ls s)"
  by (induction ls arbitrary: s) (auto intro: wf_act)

lemma wf_ch_onReceive: "wf_state s \<Longrightarrow> wf_state (fst (ch_onReceive a s))"
proof -
  assume w: "wf_state s"
  let ?s1 = "act (Emit ObsReceive) s"
  let ?ls = "case a of Lines ls \<Rightarrow> ls | _ \<Rightarrow> []"
  have "wf_state ?s1" by (intro wf_act w) simp
  from wf_feed [OF this, of ?ls] show ?thesis
    by (cases "feed ?ls ?s1"; cases "snd (feed ?ls ?s1)")
       (auto simp: ch_onReceive_def Let_def intro: wf_onReply_all)
qed

lemma wf_run_listener:
  assumes "wf_state s" and "\<And>p. promise_of l = Some p \<Longrightarrow> p < promises s"
  shows "wf_state (fst (run_listener l a s))"
proof (cases l)
  case (CmdOnClose c)
  with assms show ?thesis by (simp add: wf_cmd_onClose)
next
  case (CmdOnError c)
  with assms show ?thesis by (simp add: wf_cmd_onError)
next
  case OnClose
  with assms(1) show ?thesis by (auto intro!: wf_emit_obs wf_fields)
next
  case OnReceive
  with assms(1) show ?thesis by (simp add: wf_ch_onReceive)
next
  case OnEnd
  with assms(1) show ?thesis by (simp add: wf_emit_obs)
next
  case OnError
  with assms(1) show ?thesis by (simp add: wf_emit_obs)
next
  case OnTimeout
  have "wf_state (act (Emit ObsTimeout) s)" by (intro wf_act assms(1)) simp
  then have "wf_state (writeAsPromised QUIT None (act (Emit ObsTimeout) s))"
    by (rule wf_write)
  then have "wf_state (act (Dropped (promises s))
      (writeAsPromised QUIT None (act (Emit ObsTimeout) s)))"
    by (rule wf_act) simp
  with OnTimeout show ?thesis by (simp add: ch_onTimeout_def)
next
  case (PromiseResolve p)
  with assms show ?thesis by (simp add: wf_settle)
next
  case (PromiseReject p)
  with assms show ?thesis by (simp add: wf_settle)
qed

lemma wf_call_all:
  assumes "wf_state s" and "\<forall>y\<in>set ls. entry_ok (promises s) y"
  shows "wf_state (fst (call_all k ls a s))"
  using assms
proof (induction ls arbitrary: s)
  case Nil
  then show ?case by simp
next
  case (Cons x ls)
  obtain e l is_once where x: "x = (e, l, is_once)" by (cases x)
  let ?s1 = "if is_once then upd_sock k (\<lambda>x. x\<lparr>lst := remove1 (e, l, True) (lst x)\<rparr>) s else s"
  have w1: "wf_state ?s1" using Cons.prems(1) by (simp add: wf_remove)
  from Cons.prems x have "\<And>p. promise_of l = Some p \<Longrightarrow> p < promises ?s1"
    by (auto simp: entry_ok_def)
  from wf_run_listener [OF w1 this, where a = a] have w2: "wf_state (fst (run_listener l a ?s1))" by simp
  obtain s2 r where r: "run_listener l a ?s1 = (s2, r)" by (cases "run_listener l a ?s1")
  with w2 have w2': "wf_state s2" by simp
  have "promises ?s1 = promises s" by simp
  with promises_mono_listener [of ?s1 l a] r have "promises s \<le> promises s2"
    by (simp del: upd_sock_fields split: if_splits)
  with Cons.prems have "\<forall>y\<in>set ls. entry_ok (promises s2) y"
    by (auto intro: entry_ok_mono)
  from Cons.IH [OF w2' this] r x show ?case by (cases r) (simp_all add: Let_def w2')
qed

lemma wf_sock_emit:
  assumes "wf_state s" and "k < length (sockets s)"
  shows "wf_state (sock_emit k e a s)"
proof -
  from assms have "sock_ok (promises s) (sockets s ! k)" by (simp add: wf_state_def)
  then have "\<forall>y\<in>set (listeners e (sockets s ! k)). entry_ok (promises s) y"
    by (simp add: sock_ok_def listeners_def)
  from wf_call_all [OF assms(1) this, of k a] show ?thesis
    by (cases "call_all k (listeners e (sockets s ! k)) a s";
        cases "snd (call_all k (listeners e (sockets s ! k)) a s)")
       (auto simp: sock_emit_def Let_def assms(1) intro: wf_act)
qed

lemma wf_run_job:
  "wf_state s \<Longrightarrow> job_promise j < promises s \<Longrightarrow>
   wf_state (fst (run_job j s)) \<and> (\<forall>j'\<in>set (snd (run_job j s)). job_promise j' < promises s)"
  by (cases j; cases "case j of RunHandler c h l \<Rightarrow> h | _ \<Rightarrow> None")
     (auto simp: Let_def split: option.splits intro: wf_act wf_settle)

lemma wf_drain:
  "wf_state s \<Longrightarrow> \<forall>j\<in>set q. job_promise j < promises s \<Longrightarrow> wf_state (drain q s)"
proof (induction q s rule: drain.induct)
  case (1 s)
  then show ?case by simp
next
  case (2 j q s)
  from "2.prems" wf_run_job [of s j] have w: "wf_state (fst (run_job j s))"
    "\<forall>j'\<in>set (snd (run_job j s)). job_promise j' < promises s"
    by simp_all
  with "2.prems" have "\<forall>j'\<in>set (q @ snd (run_job j s)). job_promise j' < promises (fst (run_job j s))"
    by (auto simp: run_job_frame)
  from "2.IH" [OF w(1) this] show ?case by simp
qed

lemma wf_dispatch: "wf_state s \<Longrightarrow> wf_state (dispatch e s)"
proof (cases e)
  case (Connected k)
  assume w: "wf_state s"
  show ?thesis
  proof (cases "live k s \<and> \<not> fired (sockets s ! k)")
    case False
    then have "dispatch (Connected k) s = s" by (cases "live k s") simp_all
    with w Connected show ?thesis by (simp only:)
  next
    case True
    then have "sockets s ! k \<in> set (sockets s)" by (simp add: live_def)
    with w have "\<And>p. cb (sockets s ! k) = TlsCb p \<Longrightarrow> p < promises s"
      by (auto simp: wf_state_def sock_ok_def)
    then have "wf_state (fst (run_callback (cb (sockets s ! k)) (upd_sock k (\<lambda>x. x\<lparr>fired := True\<rparr>) s)))"
      by (intro wf_callback wf_mark w) simp
    with True Connected show ?thesis
      by (cases "run_callback (cb (sockets s ! k)) (upd_sock k (\<lambda>x. x\<lparr>fired := True\<rparr>) s)";
          cases "snd (run_callback (cb (sockets s ! k)) (upd_sock k (\<lambda>x. x\<lparr>fired := True\<rparr>) s))")
         (auto intro: wf_act)
  qed
next
  case (SockClose k hadError)
  assume w: "wf_state s"
  show ?thesis
  proof (cases "live k s")
    case True
    then have "wf_state (sock_emit k EvClose (Bool hadError) (upd_sock k (\<lambda>x. x\<lparr>closed := True\<rparr>) s))"
      by (intro wf_sock_emit wf_mark w) (simp add: live_def)
    with True SockClose show ?thesis by simp
  next
    case False
    with w SockClose show ?thesis by simp
  qed
next
  case (SockData k ls)
  assume "wf_state s"
  with SockData wf_sock_emit [of s k EvData "Lines ls"] show ?thesis
    by (cases "live k s") (simp_all add: live_def)
next
  case (SockEnd k)
  assume "wf_state s"
  with SockEnd wf_sock_emit [of s k EvEnd Undefined] show ?thesis
    by (cases "live k s") (simp_all add: live_def)
next
  case (SockError k x)
  assume "wf_state s"
  with SockError wf_sock_emit [of s k EvError x] show ?thesis
    by (cases "live k s") (simp_all add: live_def)
next
  case (SockTimeout k)
  assume "wf_state s"
  with SockTimeout wf_sock_emit [of s k EvTimeout Undefined] show ?thesis
    by (cases "live k s") (simp_all add: live_def)
next
  case (CallConnect h)
  assume "wf_state s"
  with CallConnect show ?thesis by (simp add: wf_connect)
next
  case CallClose
  assume "wf_state s"
  with CallClose show ?thesis by (simp add: wf_close)
next
  case (CallWrite d h)
  assume "wf_state s"
  with CallWrite show ?thesis by (simp add: wf_write)
next
  case CallNegotiateTLS
  assume "wf_state s"
  with CallNegotiateTLS show ?thesis by (simp add: wf_negotiate)
qed

lemma wf_step: "wf_state s \<Longrightarrow> wf_state (step s e)"
proof -
  assume "wf_state s"
  then have w: "wf_state (dispatch e s)" by (rule wf_dispatch)
  then have "\<forall>j\<in>set (jobs (dispatch e s)). job_promise j < promises (dispatch e s\<lparr>jobs := []\<rparr>)"
    by (simp add: wf_state_def)
  with w show ?thesis
    unfolding step_def Let_def by (intro wf_drain wf_fields)
qed

lemma wf_run: "wf_state s \<Longrightarrow> wf_state (run s es)"
  by (induction es arbitrary: s) (simp_all add: run_def wf_step)

text \<open>Every state reached from a new channel is well-formed, with an empty microtask queue.\<close>

lemma wf_init: "wf_state (init sec obs)"
  by (simp add: wf_state_def init_def calls_def)

lemma jobs_run: "jobs s = [] \<Longrightarrow> jobs (run s es) = []"
  by (induction es arbitrary: s) (simp_all add: run_def step_frame)

lemma wf_unused: "wf_state s \<Longrightarrow> jobs s = [] \<Longrightarrow> unused (promises s) s"
  unfolding wf_state_def unused_def lines_of_def sock_ok_def entry_ok_def mentions_def
  by (fastforce simp: filter_empty_conv jobs_of_def)

lemma wf_kinds:
  "wf_state s \<Longrightarrow> k < length (sockets s) \<Longrightarrow>
   \<forall>x\<in>set (lst (sockets s ! k)). kind (fst (snd x)) = fst x"
  unfolding wf_state_def sock_ok_def entry_ok_def by (metis nth_mem)

section \<open>The log of actions only grows\<close>






lemma wire_trace [simp]: "trace (wire k s) = trace s"
  by (simp add: wire_def)





















section \<open>The wiring of the held socket\<close>

lemma keeps_wiring_refl [simp]: "keeps_wiring s s"
  by (simp add: keeps_wiring_def)

lemma keeps_wiring_trans: "keeps_wiring s s1 \<Longrightarrow> keeps_wiring s1 s2 \<Longrightarrow> keeps_wiring s s2"
  by (simp add: keeps_wiring_def)

lemma keeps_wiring_sockets: "sockets s' = sockets s \<Longrightarrow> keeps_wiring s s'"
  by (simp add: keeps_wiring_def)

lemma keeps_wiring_upd:
  "(\<And>x w. w \<in> set wiring \<Longrightarrow> w \<in> set (lst x) \<Longrightarrow> w \<in> set (lst (f x)))
   \<Longrightarrow> keeps_wiring s (upd_sock k f s)"
  by (simp add: keeps_wiring_def upd_sock_nth)

lemma mem_remove_last:
  assumes "x \<in> set xs" and "\<not> P x"
  shows "x \<in> set (remove_last P xs)"
proof -
  from assms(2) have "filter (\<lambda>y. y = x) (remove_last P xs) = filter (\<lambda>y. y = x) xs"
    by (intro filter_remove_last_other) auto
  moreover from assms(1) have "x \<in> set (filter (\<lambda>y. y = x) xs)" by simp
  ultimately have "x \<in> set (filter (\<lambda>y. y = x) (remove_last P xs))" by simp
  then show ?thesis by simp
qed

lemma keeps_wiring_ops:
  "keeps_wiring s (upd_sock k (once e l) s)"
  "keeps_wiring s (upd_sock k (on e l) s)"
  "keeps_wiring s (upd_sock k (removeListener e (CmdOnClose c)) s)"
  "keeps_wiring s (upd_sock k (removeListener e (CmdOnError c)) s)"
  "keeps_wiring s (upd_sock k (\<lambda>x. x\<lparr>lst := remove1 (e, l, True) (lst x)\<rparr>) s)"
  by (rule keeps_wiring_upd;
      auto simp: wiring_def once_def on_def removeListener_def intro!: mem_remove_last)+

lemma keeps_wiring_basic [simp]:
  "keeps_wiring s (act a s)"
  "keeps_wiring s (settle p out s)"
  "keeps_wiring s (unlisten_line c s)"
  "keeps_wiring s (new_promise s)"
  "keeps_wiring s (s\<lparr>socket := x\<rparr>)"
  "keeps_wiring s (s\<lparr>jobs := q\<rparr>)"
  "keeps_wiring s (s\<lparr>line_listeners := ll\<rparr>)"
  by (simp_all add: keeps_wiring_def settle_def unlisten_line_def)

lemma keeps_wiring_then:
  "keeps_wiring s s1 \<Longrightarrow> sockets s2 = sockets s1 \<Longrightarrow> keeps_wiring s s2"
  by (simp add: keeps_wiring_def)

lemma resolveCommand_wiring: "keeps_wiring s (resolveCommand p h s)"
proof (cases "socket s")
  case None
  then show ?thesis by (simp add: resolveCommand_def)
next
  case (Some k)
  have "keeps_wiring s (upd_sock k (once EvError (CmdOnError p)) (upd_sock k (once EvClose (CmdOnClose p)) s))"
    by (rule keeps_wiring_trans [OF keeps_wiring_ops(1) keeps_wiring_ops(1)])
  with Some show ?thesis
    by (auto simp: resolveCommand_def Let_def elim: keeps_wiring_then)
qed

lemma writeAsPromised_wiring: "keeps_wiring s (writeAsPromised d h s)"
proof -
  have "keeps_wiring s (resolveCommand (promises s) h (new_promise s))"
    by (rule keeps_wiring_trans [OF keeps_wiring_basic(4) resolveCommand_wiring])
  then show ?thesis
    by (cases "socket s")
       (auto simp: writeAsPromised_def Let_def keeps_wiring_def settle_def)
qed

lemma emit_obs_wiring: "keeps_wiring s (fst (emit_obs x s))"
  by (cases x) (auto simp: emit_obs_def)

lemma cmd_onClose_wiring: "keeps_wiring s (fst (cmd_onClose c s))"
proof (cases "socket s")
  case None
  then show ?thesis by (simp add: cmd_onClose_def keeps_wiring_def settle_def unlisten_line_def)
next
  case (Some k)
  from keeps_wiring_ops(4) [of s k EvError c] Some show ?thesis
    by (auto simp: cmd_onClose_def settle_def unlisten_line_def elim: keeps_wiring_then)
qed

lemma cmd_onError_wiring: "keeps_wiring s (fst (cmd_onError c a s))"
proof (cases "socket s")
  case None
  then show ?thesis by (simp add: cmd_onError_def)
next
  case (Some k)
  from keeps_wiring_ops(3) [of s k EvClose c] Some show ?thesis
    by (auto simp: cmd_onError_def settle_def unlisten_line_def elim: keeps_wiring_then)
qed

lemma cmd_onLine_wiring: "keeps_wiring s (fst (cmd_onLine c h l s))"
proof (cases "socket s")
  case None
  then show ?thesis by (simp add: cmd_onLine_def Let_def keeps_wiring_def)
next
  case (Some k)
  let ?s1 = "s\<lparr>jobs := jobs s @ [RunHandler c h l]\<rparr>"
  have "keeps_wiring ?s1 (upd_sock k (removeListener EvError (CmdOnError c))
          (upd_sock k (removeListener EvClose (CmdOnClose c)) ?s1))"
    by (rule keeps_wiring_trans [OF keeps_wiring_ops(3) keeps_wiring_ops(4)])
  then have "keeps_wiring s (upd_sock k (removeListener EvError (CmdOnError c))
          (upd_sock k (removeListener EvClose (CmdOnClose c)) ?s1))"
    by (simp add: keeps_wiring_def)
  with Some show ?thesis
    by (auto simp: cmd_onLine_def Let_def unlisten_line_def elim: keeps_wiring_then)
qed

lemma emit_line_wiring: "keeps_wiring s (fst (emit_line ls l s))"
proof (induction ls arbitrary: s)
  case Nil
  then show ?case by simp
next
  case (Cons x ls)
  obtain c h where x: "x = (c, h)" by (cases x)
  show ?case
  proof (cases "cmd_onLine c h l s")
    case (Pair s1 r)
    with cmd_onLine_wiring [of s c h l] have "keeps_wiring s s1" by simp
    with Pair x Cons.IH [of s1] show ?thesis
      by (cases r) (auto intro: keeps_wiring_trans)
  qed
qed

lemma feed_wiring: "keeps_wiring s (fst (feed ls s))"
proof (induction ls arbitrary: s)
  case Nil
  then show ?case by simp
next
  case (Cons l ls)
  show ?case
  proof (cases "emit_line (line_listeners s) l s")
    case (Pair s1 r)
    with emit_line_wiring [of s "line_listeners s" l] have "keeps_wiring s s1" by simp
    with Pair Cons.IH [of s1] show ?thesis
      by (cases r) (auto intro: keeps_wiring_trans)
  qed
qed

lemma onReply_all_sockets [simp]: "sockets (onReply_all ls s) = sockets s"
  by (induction ls arbitrary: s) simp_all

lemma ch_onReceive_wiring: "keeps_wiring s (fst (ch_onReceive a s))"
proof -
  let ?s1 = "act (Emit ObsReceive) s"
  let ?ls = "case a of Lines ls \<Rightarrow> ls | _ \<Rightarrow> []"
  show ?thesis
  proof (cases "feed ?ls ?s1")
    case (Pair s2 r)
    with feed_wiring [of ?s1 ?ls] have "keeps_wiring s s2" by (simp add: keeps_wiring_def)
    with Pair show ?thesis
      by (cases r) (auto simp: ch_onReceive_def Let_def elim: keeps_wiring_then)
  qed
qed

lemma ch_onTimeout_wiring: "keeps_wiring s (fst (ch_onTimeout s))"
  using writeAsPromised_wiring [of "act (Emit ObsTimeout) s" QUIT None]
  by (simp add: ch_onTimeout_def keeps_wiring_def)

lemma run_listener_wiring: "keeps_wiring s (fst (run_listener l a s))"
proof (cases l)
  case OnClose
  with emit_obs_wiring [of "s\<lparr>socket := None\<rparr>" ObsClose] show ?thesis
    by (simp add: keeps_wiring_def)
qed (simp_all add: cmd_onClose_wiring cmd_onError_wiring ch_onReceive_wiring emit_obs_wiring
       ch_onTimeout_wiring)

lemma call_all_wiring: "keeps_wiring s (fst (call_all k ls a s))"
proof (induction ls arbitrary: s)
  case Nil
  then show ?case by simp
next
  case (Cons x ls)
  obtain e l is_once where x: "x = (e, l, is_once)" by (cases x)
  let ?s1 = "if is_once then upd_sock k (\<lambda>x. x\<lparr>lst := remove1 (e, l, True) (lst x)\<rparr>) s else s"
  have v1: "keeps_wiring s ?s1" by (simp add: keeps_wiring_ops)
  show ?case
  proof (cases "run_listener l a ?s1")
    case (Pair s2 r)
    with run_listener_wiring [of ?s1 l a] v1 have "keeps_wiring s s2"
      by (auto intro: keeps_wiring_trans)
    with Pair x Cons.IH [of s2] show ?thesis
      by (cases r) (auto simp: Let_def intro: keeps_wiring_trans)
  qed
qed

lemma sock_emit_wiring: "keeps_wiring s (sock_emit k e a s)"
proof (cases "call_all k (listeners e (sockets s ! k)) a s")
  case (Pair s1 r)
  with call_all_wiring [of s k "listeners e (sockets s ! k)" a] have "keeps_wiring s s1" by simp
  with Pair show ?thesis
    by (cases r) (auto simp: sock_emit_def Let_def elim: keeps_wiring_then)
qed

lemma wire_nth:
  "k < length (sockets s) \<Longrightarrow>
   sockets (wire k s) ! j =
     (if j = k then (sockets s ! k)\<lparr>lst := filter (\<lambda>x. fst x \<noteq> EvError) (lst (sockets s ! k)) @
          [(EvClose, OnClose, False), (EvData, OnReceive, False), (EvEnd, OnEnd, False),
           (EvError, OnError, False), (EvTimeout, OnTimeout, False)]\<rparr>
      else sockets s ! j)"
  by (simp add: wire_def upd_sock_nth on_def removeAllListeners_def)

lemma held_wired_frame:
  assumes "held_wired s" and "wf_state s" and "same_shell s t" and "keeps_wiring s t"
  shows "held_wired t"
  unfolding held_wired_def
proof (intro allI impI)
  fix k
  assume a: "socket t = Some k \<and> fired (sockets t ! k)"
  with assms(3) have so: "socket s = Some k" by (auto simp: same_shell_def)
  with assms(2) have k: "k < length (sockets s)" by (simp add: wf_state_def)
  from shell_nth(2) [OF assms(3) k] have sh: "shell (sockets t ! k) = shell (sockets s ! k)" .
  then have f: "fired (sockets t ! k) = fired (sockets s ! k)"
    "closed (sockets t ! k) = closed (sockets s ! k)"
    by (metis shell_fields)+
  with a so assms(1) have "\<not> closed (sockets s ! k)"
    "\<forall>w\<in>set wiring. w \<in> set (lst (sockets s ! k))"
    by (simp_all add: held_wired_def)
  with assms(4) f show "\<not> closed (sockets t ! k) \<and> (\<forall>w\<in>set wiring. w \<in> set (lst (sockets t ! k)))"
    by (simp add: keeps_wiring_def)
qed

lemma held_wired_none: "socket s = None \<Longrightarrow> held_wired s"
  by (simp add: held_wired_def)

lemma held_wired_Connected:
  assumes "held_wired s" and "wf_state s"
  shows "held_wired (dispatch (Connected j) s)"
proof (cases "live j s \<and> \<not> fired (sockets s ! j)")
  case False
  then have "dispatch (Connected j) s = s" by (cases "live j s") simp_all
  with assms(1) show ?thesis by (simp only:)
next
  case True
  show ?thesis
  proof (cases "socket s")
    case None
    with True show ?thesis
      by (cases "cb (sockets s ! j)")
         (simp_all add: run_callback_def Let_def held_wired_none)
  next
    case (Some k)
    with assms(2) have k: "k < length (sockets s)" by (simp add: wf_state_def)
    let ?s0 = "upd_sock j (\<lambda>x. x\<lparr>fired := True\<rparr>) s"
    have w: "held_wired (wire k (?s0\<lparr>is_secure := b\<rparr>))" for b
      unfolding held_wired_def
    proof (intro allI impI)
      fix k'
      assume a: "socket (wire k (?s0\<lparr>is_secure := b\<rparr>)) = Some k'
                 \<and> fired (sockets (wire k (?s0\<lparr>is_secure := b\<rparr>)) ! k')"
      have "socket (wire k (?s0\<lparr>is_secure := b\<rparr>)) = socket s" by (simp add: wire_def)
      with a Some have [simp]: "k' = k" by simp
      have n: "sockets (wire k (?s0\<lparr>is_secure := b\<rparr>)) ! k
                = (sockets ?s0 ! k)\<lparr>lst := filter (\<lambda>x. fst x \<noteq> EvError) (lst (sockets ?s0 ! k)) @
          [(EvClose, OnClose, False), (EvData, OnReceive, False), (EvEnd, OnEnd, False),
           (EvError, OnError, False), (EvTimeout, OnTimeout, False)]\<rparr>"
        using k wire_nth [of k "?s0\<lparr>is_secure := b\<rparr>" k] by simp
      have "\<not> closed (sockets ?s0 ! k)"
      proof (cases "k = j")
        case True
        with \<open>live j s \<and> \<not> fired (sockets s ! j)\<close> show ?thesis
          by (simp add: upd_sock_nth live_def)
      next
        case False
        with a n have "fired (sockets s ! k)" by (simp add: upd_sock_nth)
        with assms(1) Some False show ?thesis by (simp add: held_wired_def upd_sock_nth)
      qed
      with n show "\<not> closed (sockets (wire k (?s0\<lparr>is_secure := b\<rparr>)) ! k')
           \<and> (\<forall>w\<in>set wiring. w \<in> set (lst (sockets (wire k (?s0\<lparr>is_secure := b\<rparr>)) ! k')))"
        by (simp add: wiring_def)
    qed
    have act: "held_wired (act a t) = held_wired t" for a t
      by (simp add: held_wired_def)
    from True Some w show ?thesis
      by (cases "cb (sockets s ! j)")
         (simp_all add: run_callback_def Let_def emit_obs_def settle_def act)
  qed
qed

lemma held_wired_SockClose:
  assumes "held_wired s" and "wf_state s"
  shows "held_wired (dispatch (SockClose k hadError) s)"
proof (cases "live k s")
  case False
  with assms(1) show ?thesis by simp
next
  case True
  then have k: "k < length (sockets s)" by (simp add: live_def)
  let ?s0 = "upd_sock k (\<lambda>x. x\<lparr>closed := True\<rparr>) s"
  let ?t = "sock_emit k EvClose (Bool hadError) ?s0"
  have sh: "same_shell ?s0 ?t" by (rule sock_emit_shell)
  have kw: "keeps_wiring ?s0 ?t" by (rule sock_emit_wiring)
  have "held_wired ?t"
    unfolding held_wired_def
  proof (intro allI impI)
    fix k'
    assume a: "socket ?t = Some k' \<and> fired (sockets ?t ! k')"
    with sh have so: "socket s = Some k'" by (auto simp: same_shell_def)
    with assms(2) have k': "k' < length (sockets s)" by (simp add: wf_state_def)
    then have "k' < length (sockets ?s0)" by simp
    from shell_nth(2) [OF sh this] have "shell (sockets ?t ! k') = shell (sockets ?s0 ! k')" .
    then have f: "fired (sockets ?t ! k') = fired (sockets ?s0 ! k')"
      "closed (sockets ?t ! k') = closed (sockets ?s0 ! k')"
      by (metis shell_fields)+
    with a have "fired (sockets s ! k')" by (simp add: upd_sock_nth split: if_splits)
    with assms(1) so have h: "\<not> closed (sockets s ! k')"
      "\<forall>w\<in>set wiring. w \<in> set (lst (sockets s ! k'))"
      by (simp_all add: held_wired_def)
    have ne: "k' \<noteq> k"
    proof
      assume e: "k' = k"
      let ?ls = "listeners EvClose (sockets ?s0 ! k)"
      from wf_kinds [OF assms(2) k] k
      have kinds: "\<forall>x\<in>set ?ls. kind (fst (snd x)) = EvClose"
        by (auto simp: listeners_def upd_sock_nth)
      from h(2) e k have "(EvClose, OnClose, False) \<in> set ?ls"
        by (simp add: listeners_def upd_sock_nth wiring_def)
      then have mem: "OnClose \<in> (\<lambda>x. fst (snd x)) ` set ?ls" by force
      obtain s1 r where ca: "call_all k ?ls (Bool hadError) ?s0 = (s1, r)"
        by (cases "call_all k ?ls (Bool hadError) ?s0")
      with close_list_run [OF kinds, of k "Bool hadError" ?s0] mem
      have "r = None" "socket s1 = None" by simp_all
      with ca have "socket ?t = None"
        by (simp add: sock_emit_def Let_def del: upd_sock_fields)
      with a show False by simp
    qed
    with h f kw show "\<not> closed (sockets ?t ! k') \<and> (\<forall>w\<in>set wiring. w \<in> set (lst (sockets ?t ! k')))"
      by (simp add: keeps_wiring_def upd_sock_nth)
  qed
  with True show ?thesis by simp
qed

lemma held_wired_sock_event:
  assumes "held_wired s" and "wf_state s"
  shows "held_wired (if live k s then sock_emit k e a s else s)"
  using held_wired_frame [OF assms sock_emit_shell sock_emit_wiring] assms(1) by simp

lemma held_wired_dispatch:
  assumes "held_wired s" and "wf_state s"
  shows "held_wired (dispatch e s)"
proof (cases e)
  case (Connected j)
  with held_wired_Connected [OF assms] show ?thesis by simp
next
  case (SockClose k hadError)
  with held_wired_SockClose [OF assms] show ?thesis by simp
next
  case (SockData k ls)
  from held_wired_sock_event [OF assms] show ?thesis unfolding SockData dispatch.simps .
next
  case (SockEnd k)
  from held_wired_sock_event [OF assms] show ?thesis unfolding SockEnd dispatch.simps .
next
  case (SockError k x)
  from held_wired_sock_event [OF assms] show ?thesis unfolding SockError dispatch.simps .
next
  case (SockTimeout k)
  from held_wired_sock_event [OF assms] show ?thesis unfolding SockTimeout dispatch.simps .
next
  case (CallConnect h)
  show ?thesis
  proof (cases "socket s")
    case None
    then have "socket (connectAsPromised h s) = Some (length (sockets s))"
      "\<not> fired (sockets (connectAsPromised h s) ! length (sockets s))"
      by (simp_all add: connectAsPromised_def resolveCommand_def Let_def upd_sock_def
          createSocket_def once_def)
    then show ?thesis unfolding CallConnect by (simp add: held_wired_def)
  next
    case (Some k)
    with assms(1) show ?thesis unfolding CallConnect
      by (simp add: connectAsPromised_def Let_def settle_def held_wired_def)
  qed
next
  case CallClose
  have "socket (closeAsPromised s) = None"
    by (cases "socket s") (simp_all add: closeAsPromised_def Let_def settle_def)
  then show ?thesis unfolding CallClose by (simp add: held_wired_none)
next
  case (CallWrite d h)
  from held_wired_frame [OF assms writeAsPromised_shell writeAsPromised_wiring]
  show ?thesis unfolding CallWrite by simp
next
  case CallNegotiateTLS
  show ?thesis
  proof (cases "socket s")
    case None
    then have "socket (negotiateTLSAsPromised s) = None"
      by (simp add: negotiateTLSAsPromised_def Let_def settle_def)
    then show ?thesis unfolding CallNegotiateTLS by (simp add: held_wired_none)
  next
    case (Some k)
    then have "socket (negotiateTLSAsPromised s) = Some (length (sockets s))"
      "\<not> fired (sockets (negotiateTLSAsPromised s) ! length (sockets s))"
      by (simp_all add: negotiateTLSAsPromised_def Let_def upd_sock_def createSocket_def on_def
          nth_append)
    then show ?thesis unfolding CallNegotiateTLS by (simp add: held_wired_def)
  qed
qed

lemma held_wired_step: "held_wired s \<Longrightarrow> wf_state s \<Longrightarrow> held_wired (step s e)"
  using held_wired_dispatch [of s e] by (simp add: held_wired_def step_frame)

lemma held_wired_run: "held_wired s \<Longrightarrow> wf_state s \<Longrightarrow> held_wired (run s es)"
proof (induction es arbitrary: s)
  case Nil
  then show ?case by (simp add: run_def)
next
  case (Cons e es)
  from Cons.prems have "held_wired (step s e)" "wf_state (step s e)"
    by (simp_all add: held_wired_step wf_step)
  with Cons.IH [of "step s e"] show ?case by (simp add: run_def)
qed

lemma held_wired_init: "held_wired (init sec ob)"
  by (simp add: held_wired_def init_def)

lemma reachable_wf:
  "wf_state (run (init sec ob) evs)" "jobs (run (init sec ob) evs) = []"
  "held_wired (run (init sec ob) evs)"
proof -
  have "jobs (init sec ob) = []" by (simp add: init_def)
  then show "jobs (run (init sec ob) evs) = []" by (rule jobs_run)
qed (simp_all add: wf_run wf_init held_wired_run held_wired_init)

section \<open>Properties of the reply-line helpers\<close>

text \<open>
  C3 (as the code has it). For a non-empty reply line, \<open>parseReplyCode\<close> returns its first
  three characters, which is the whole line when the line has fewer than three; for the
  empty line it returns \<open>null\<close>.
\<close>

theorem parseReplyCode_first_three:
  "parseReplyCode L =
     (if L = [] then Null
      else if length L < 3 then Str L
      else Str [L ! 0, L ! 1, L ! 2])"
proof (cases "length L < 3")
  case True
  then show ?thesis
    by (simp add: parseReplyCode_def substr_def)
next
  case False
  then have "Suc (Suc (Suc 0)) \<le> length L" by simp
  then obtain a b c r where "L = a # b # c # r"
    by (auto simp: Suc_le_length_iff)
  then show ?thesis
    by (simp add: parseReplyCode_def substr_def)
qed

theorem parseReplyCode_first_three_witness:
  "parseReplyCode ''250-SIZE'' = Str ''250'' \<and> parseReplyCode ''ab'' = Str ''ab''
   \<and> parseReplyCode '''' = Null"
  using parseReplyCode_first_three [of "''250-SIZE''"]
    parseReplyCode_first_three [of "''ab''"] parseReplyCode_first_three [of "''''"]
  by simp

text \<open>
  C3 as stated fails: the two-character line \<open>ab\<close> is shorter than three characters, and
  the result is the line itself, not an empty or undefined value.
\<close>

theorem parseReplyCode_short_counterexample:
  "length ''ab'' < 3 \<and> parseReplyCode ''ab'' = Str ''ab''
   \<and> parseReplyCode ''ab'' \<notin> {Undefined, Null, Str ''''}"
  by (simp add: parseReplyCode_def substr_def)

text \<open>
  C4 (as the code has it). For a reply line of at least four characters, \<open>isLastReply\<close>
  returns \<open>true\<close> iff the character at index 3 is a space; for a non-empty line of fewer
  than four characters it returns \<open>false\<close>; for the empty line it returns \<open>null\<close>, which
  is falsy. Every case returns a value: nothing is thrown.
\<close>

theorem isLastReply_space_at_3:
  "isLastReply L =
     (if L = [] then Null
      else if length L < 4 then Bool False
      else Bool (L ! 3 = CHR '' ''))"
  by (simp add: isLastReply_def charAt_def)

theorem isLastReply_space_at_3_witness:
  "isLastReply ''250 OK'' = Bool True \<and> isLastReply ''250-SIZE'' = Bool False
   \<and> isLastReply ''250'' = Bool False \<and> isLastReply '''' = Null
   \<and> \<not> truthy (isLastReply '''')"
  using isLastReply_space_at_3 [of "''250 OK''"] isLastReply_space_at_3 [of "''250-SIZE''"]
    isLastReply_space_at_3 [of "''250''"] isLastReply_space_at_3 [of "''''"]
  by simp

text \<open>
  C4 as stated fails at the empty line, which is shorter than four characters: the
  result is \<open>null\<close>, not \<open>false\<close>.
\<close>

theorem isLastReply_empty_counterexample:
  "length '''' < 4 \<and> isLastReply '''' \<noteq> Bool False"
  by (simp add: isLastReply_def)

section \<open>Connection lifecycle\<close>

text \<open>
  C6. \<open>connect\<close> is idempotent while a socket exists: the call resolves its promise at
  once with \<open>undefined\<close>, creates no socket and registers no listener (no greeting
  correlation is armed). In particular the second of two \<open>connect\<close> calls in a row,
  whatever the state before the first, does that.
\<close>

theorem connect_idempotent:
  "(socket s \<noteq> None \<longrightarrow>
      sockets (connectAsPromised h s) = sockets s
      \<and> socket (connectAsPromised h s) = socket s
      \<and> line_listeners (connectAsPromised h s) = line_listeners s
      \<and> trace (connectAsPromised h s) = trace s @ [Settle (promises s) (Resolve Undefined)])
   \<and> (let s1 = connectAsPromised h s; s2 = connectAsPromised h' s1 in
        socket s1 \<noteq> None
        \<and> sockets s2 = sockets s1 \<and> socket s2 = socket s1
        \<and> line_listeners s2 = line_listeners s1
        \<and> trace s2 = trace s1 @ [Settle (promises s1) (Resolve Undefined)])"
  by (auto simp: connectAsPromised_def Let_def settle_def split: option.splits)

theorem connect_idempotent_witness:
  "socket greeted \<noteq> None
   \<and> sockets (connectAsPromised None greeted) = sockets greeted
   \<and> line_listeners (connectAsPromised None greeted) = line_listeners greeted
   \<and> trace (connectAsPromised None greeted) = trace greeted @ [Settle 1 (Resolve Undefined)]"
proof -
  have h: "socket greeted \<noteq> None" by code_simp
  have p: "promises greeted = 1" by code_simp
  from connect_idempotent [of greeted None None] h p show ?thesis by simp
qed

lemma close_call:
  assumes so: "socket s = Some k" and wf: "wf_state s" and jb: "jobs s = []"
  shows "socket (closeAsPromised s) = None"
    and "destroyed (sockets (closeAsPromised s) ! k)"
    and "trace (closeAsPromised s) = trace s @ [Destroy k]"
    and "(\<forall>e\<in>set es. target e \<noteq> Some (k, EvClose)) \<Longrightarrow>
           calls (promises s) (run (closeAsPromised s) es) = []"
    and "live k s \<Longrightarrow>
           calls (promises s) (step (closeAsPromised s) (SockClose k hadError))
             = [Resolve (Bool hadError)]"
    and "\<not> live k s \<Longrightarrow> calls (promises s) (run (closeAsPromised s) es) = []"
proof -
  let ?p = "promises s"
  let ?s' = "closeAsPromised s"
  from so wf have k: "k < length (sockets s)" by (simp add: wf_state_def)
  from wf_unused [OF wf jb] have un: "unused ?p s" .
  from wf_kinds [OF wf k] have kd: "\<forall>x\<in>set (lst (sockets s ! k)). kind (fst (snd x)) = fst x" .
  from so have s'_def: "?s' = (act (Destroy k) (upd_sock k (\<lambda>x. x\<lparr>destroyed := True\<rparr>)
          (upd_sock k (once EvClose (PromiseResolve ?p)) (new_promise s))))\<lparr>socket := None\<rparr>"
    by (simp add: closeAsPromised_def Let_def)
  have basic: "socket ?s' = None" "trace ?s' = trace s @ [Destroy k]" "jobs ?s' = []"
    "promises ?s' = Suc ?p" "length (sockets ?s') = length (sockets s)"
    using jb by (simp_all add: s'_def)
  have sk: "sockets ?s' ! k = (sockets s ! k)\<lparr>lst := lst (sockets s ! k) @ [(EvClose, PromiseResolve ?p, True)],
                 destroyed := True\<rparr>"
    using k by (simp add: s'_def upd_sock_def once_def)
  have sj: "sockets ?s' ! j = sockets s ! j" if "j \<noteq> k" for j
    using that by (simp add: s'_def upd_sock_def)
  show "socket ?s' = None" "trace ?s' = trace s @ [Destroy k]" by (rule basic)+
  show "destroyed (sockets ?s' ! k)" by (simp add: sk)
  have calls0: "calls ?p ?s' = []"
    using un by (simp add: s'_def unused_def calls_act)
  have ment: "(j, fst x) \<in> {(k, EvClose)}"
    if m: "mentions ?p x" "x \<in> set (lst (sockets ?s' ! j))" "j < length (sockets s)" for x j
  proof (cases "j = k")
    case True
    from un k have "filter (mentions ?p) (lst (sockets s ! k)) = []"
      by (simp add: unused_def)
    then have "\<not> (x \<in> set (lst (sockets s ! k)))"
      using m(1) by (auto simp: filter_empty_conv)
    with m True sk show ?thesis by auto
  next
    case False
    from un m(3) have "filter (mentions ?p) (lst (sockets s ! j)) = []"
      by (simp add: unused_def)
    with m sj [OF False] show ?thesis by (auto simp: filter_empty_conv)
  qed
  have cbs: "cb (sockets ?s' ! j) \<noteq> TlsCb ?p" if "j < length (sockets s)" for j
    using un that sk sj [of j] by (cases "j = k") (auto simp: unused_def)
  from un have lines: "lines_of ?p ?s' = []" by (simp add: s'_def unused_def)
  have conf: "confined ?p {(k, EvClose)} ?s'"
    unfolding confined_def using basic ment cbs lines by (auto simp: jobs_of_def)
  show "calls ?p (run ?s' es) = []" if "\<forall>e\<in>set es. target e \<noteq> Some (k, EvClose)"
    using confined_run [OF conf, of es] that calls0 by auto
  show "calls ?p (run ?s' es) = []" if "\<not> live k s"
  proof -
    from that k have c: "closed (sockets ?s' ! k)" by (simp add: live_def sk)
    have "(j, fst x) \<in> {}"
      if "mentions ?p x" "x \<in> set (lst (sockets ?s' ! j))" "j < length (sockets s)"
        "\<not> closed (sockets ?s' ! j)" for x j
      using ment [OF that(1-3)] that(4) c by auto
    then have "confined ?p {} ?s'"
      unfolding confined_def using basic cbs lines by (auto simp: jobs_of_def)
    from confined_run [OF this, of es] calls0 show ?thesis by simp
  qed
  show "calls ?p (step ?s' (SockClose k hadError)) = [Resolve (Bool hadError)]" if "live k s"
  proof -
    let ?s0 = "upd_sock k (\<lambda>x. x\<lparr>closed := True\<rparr>) ?s'"
    let ?old = "listeners EvClose (sockets s ! k)"
    from that have nc: "\<not> closed (sockets s ! k)" by (simp add: live_def)
    have live': "live k ?s'" using k nc sk basic by (simp add: live_def)
    have ls: "listeners EvClose (sockets ?s0 ! k) = ?old @ [(EvClose, PromiseResolve ?p, True)]"
      using k basic sk by (simp add: upd_sock_nth listeners_def)
    from kd have kinds: "\<forall>x\<in>set ?old. kind (fst (snd x)) = EvClose"
      by (auto simp: listeners_def)
    from un k have nm: "\<forall>x\<in>set ?old. \<not> mentions ?p x"
      by (auto simp: unused_def listeners_def filter_empty_conv)
    from kinds have nr: "\<forall>x\<in>set ?old. fst (snd x) \<noteq> OnReceive" by auto
    obtain s1 r where ca: "call_all k ?old (Bool hadError) ?s0 = (s1, r)"
      by (cases "call_all k ?old (Bool hadError) ?s0")
    from close_list_run [OF kinds, of k "Bool hadError" ?s0] ca basic
    have r: "r = None" "jobs s1 = []" by simp_all
    have "same_view ?p ?s0 (fst (call_all k ?old (Bool hadError) ?s0))"
      using nm nr basic by (intro call_all_other) simp_all
    with ca calls0 have c1: "calls ?p s1 = []" by (simp add: same_view_def)
    have "call_all k (?old @ [(EvClose, PromiseResolve ?p, True)]) (Bool hadError) ?s0
          = (settle ?p (Resolve (Bool hadError))
               (upd_sock k (\<lambda>x. x\<lparr>lst := remove1 (EvClose, PromiseResolve ?p, True) (lst x)\<rparr>) s1), None)"
      using ca r by (simp add: call_all_append)
    with ls live' have d: "dispatch (SockClose k hadError) ?s' = settle ?p (Resolve (Bool hadError))
               (upd_sock k (\<lambda>x. x\<lparr>lst := remove1 (EvClose, PromiseResolve ?p, True) (lst x)\<rparr>) s1)"
      by (simp add: sock_emit_def Let_def)
    have "jobs (dispatch (SockClose k hadError) ?s') = []"
      unfolding d using r by (simp add: settle_def)
    then have "step ?s' (SockClose k hadError) = dispatch (SockClose k hadError) ?s'"
      by (simp add: step_def Let_def)
    then show ?thesis unfolding d using c1 by (simp add: settle_def calls_act)
  qed
qed

text \<open>
  C7. \<open>close\<close> without a socket resolves at once. In every state reached from a new
  channel in which the channel holds a socket \<open>k\<close>, \<open>close\<close> destroys \<open>k\<close>, clears
  \<open>_socket\<close> in the same call and leaves its promise pending: a \<open>write\<close> issued right
  after it is rejected at once with \<open>Socket has closed\<close>; no sequence of events without
  the \<open>'close'\<close> event of \<open>k\<close> calls the promise's \<open>resolve\<close>; if \<open>k\<close> has not closed
  yet, its \<open>'close'\<close> event calls \<open>resolve\<close>, once; if \<open>k\<close> has closed already (a
  refused connection leaves such a socket in \<open>_socket\<close>), its \<open>'close'\<close> event cannot
  come again and no sequence of events calls \<open>resolve\<close>.
\<close>

theorem close_semantics:
  "(socket s = None \<longrightarrow>
      trace (closeAsPromised s) = trace s @ [Settle (promises s) (Resolve Undefined)]
      \<and> sockets (closeAsPromised s) = sockets s)
   \<and> (let r = run (init sec ob) evs; r' = closeAsPromised r; p = promises r in
       socket r = Some k \<longrightarrow>
          socket r' = None \<and> destroyed (sockets r' ! k) \<and> trace r' = trace r @ [Destroy k]
          \<and> trace (writeAsPromised d h r')
               = trace r' @ [Settle (promises r') (Reject (Error ''Socket has closed''))]
          \<and> ((\<forall>e\<in>set es. target e \<noteq> Some (k, EvClose)) \<longrightarrow> calls p (run r' es) = [])
          \<and> (live k r \<longrightarrow> calls p (step r' (SockClose k hadError)) = [Resolve (Bool hadError)])
          \<and> (\<not> live k r \<longrightarrow> calls p (run r' es) = []))"
proof (rule conjI)
  show "socket s = None \<longrightarrow>
      trace (closeAsPromised s) = trace s @ [Settle (promises s) (Resolve Undefined)]
      \<and> sockets (closeAsPromised s) = sockets s"
    by (simp add: closeAsPromised_def Let_def settle_def)
next
  let ?r = "run (init sec ob) evs"
  let ?r' = "closeAsPromised ?r"
  note w = reachable_wf(1,2) [of sec ob evs]
  show "let r = run (init sec ob) evs; r' = closeAsPromised r; p = promises r in
       socket r = Some k \<longrightarrow>
          socket r' = None \<and> destroyed (sockets r' ! k) \<and> trace r' = trace r @ [Destroy k]
          \<and> trace (writeAsPromised d h r')
               = trace r' @ [Settle (promises r') (Reject (Error ''Socket has closed''))]
          \<and> ((\<forall>e\<in>set es. target e \<noteq> Some (k, EvClose)) \<longrightarrow> calls p (run r' es) = [])
          \<and> (live k r \<longrightarrow> calls p (step r' (SockClose k hadError)) = [Resolve (Bool hadError)])
          \<and> (\<not> live k r \<longrightarrow> calls p (run r' es) = [])"
    unfolding Let_def
  proof (rule impI)
    assume so: "socket ?r = Some k"
    note c = close_call [OF so w]
    from c(1) have wr: "trace (writeAsPromised d h ?r')
               = trace ?r' @ [Settle (promises ?r') (Reject (Error ''Socket has closed''))]"
      by (simp add: writeAsPromised_def Let_def settle_def)
    from c(1-3) wr c(4) [of es] c(5) [of hadError] c(6) [of es]
    show "socket ?r' = None \<and> destroyed (sockets ?r' ! k) \<and> trace ?r' = trace ?r @ [Destroy k]
          \<and> trace (writeAsPromised d h ?r')
               = trace ?r' @ [Settle (promises ?r') (Reject (Error ''Socket has closed''))]
          \<and> ((\<forall>e\<in>set es. target e \<noteq> Some (k, EvClose)) \<longrightarrow> calls (promises ?r) (run ?r' es) = [])
          \<and> (live k ?r \<longrightarrow> calls (promises ?r) (step ?r' (SockClose k hadError)) = [Resolve (Bool hadError)])
          \<and> (\<not> live k ?r \<longrightarrow> calls (promises ?r) (run ?r' es) = [])"
      by blast
  qed
qed

theorem close_semantics_witness:
  "trace (closeAsPromised (init False True)) = [Settle 0 (Resolve Undefined)]
   \<and> socket (closeAsPromised greeted) = None
   \<and> calls 1 (run (closeAsPromised greeted) [SockData 0 [''250 late''], CallConnect None]) = []
   \<and> calls 1 (step (closeAsPromised greeted) (SockClose 0 False)) = [Resolve (Bool False)]
   \<and> socket (closeAsPromised refused) = None
   \<and> trace (closeAsPromised refused) = trace refused @ [Destroy 0]
   \<and> calls 1 (run (closeAsPromised refused) [SockClose 0 False, CallConnect None]) = []"
proof -
  have n: "socket (init False True) = None" "trace (init False True) = []"
    "promises (init False True) = 0"
    by (simp_all add: init_def)
  have g: "greeted = run (init False True) [CallConnect None, Connected 0, SockData 0 [''220 ready'']]"
    by (simp add: greeted_def)
  have f: "refused = run (init False True)
      [CallConnect None, SockError 0 (Error ''ECONNREFUSED''), SockClose 0 True]"
    by (simp add: refused_def dialing_def run_def)
  have h: "socket greeted = Some 0" "live 0 greeted" "promises greeted = 1"
    "socket refused = Some 0" "\<not> live 0 refused" "promises refused = 1"
    by code_simp+
  from close_semantics [of "init False True"] n
  have "trace (closeAsPromised (init False True)) = [Settle 0 (Resolve Undefined)]" by simp
  moreover from close_semantics
    [of _ False True "[CallConnect None, Connected 0, SockData 0 [''220 ready'']]" 0
        "''NOOP''" None "[SockData 0 [''250 late''], CallConnect None]" False] h
  have "socket (closeAsPromised greeted) = None
   \<and> calls 1 (run (closeAsPromised greeted) [SockData 0 [''250 late''], CallConnect None]) = []
   \<and> calls 1 (step (closeAsPromised greeted) (SockClose 0 False)) = [Resolve (Bool False)]"
    unfolding g [symmetric] by (simp add: Let_def)
  moreover from close_semantics
    [of _ False True "[CallConnect None, SockError 0 (Error ''ECONNREFUSED''), SockClose 0 True]" 0
        "''NOOP''" None "[SockClose 0 False, CallConnect None]" False] h
  have "socket (closeAsPromised refused) = None
   \<and> trace (closeAsPromised refused) = trace refused @ [Destroy 0]
   \<and> calls 1 (run (closeAsPromised refused) [SockClose 0 False, CallConnect None]) = []"
    unfolding f [symmetric] by (simp add: Let_def)
  ultimately show ?thesis by simp
qed

lemma onClose_clears:
  assumes "live k s"
    and "(EvClose, OnClose, False) \<in> set (lst (sockets s ! k))"
    and "wf_state s"
  shows "socket (step s (SockClose k hadError)) = None"
proof -
  let ?s0 = "upd_sock k (\<lambda>x. x\<lparr>closed := True\<rparr>) s"
  let ?ls = "listeners EvClose (sockets ?s0 ! k)"
  from assms(1) have lst0: "lst (sockets ?s0 ! k) = lst (sockets s ! k)"
    by (simp add: upd_sock_nth live_def)
  from assms(1,3) have "\<forall>x\<in>set (lst (sockets s ! k)). kind (fst (snd x)) = fst x"
    using wf_kinds [of s k] by (simp add: live_def)
  with lst0 have kinds: "\<forall>x\<in>set ?ls. kind (fst (snd x)) = EvClose"
    by (auto simp: listeners_def)
  from assms(2) lst0 have "(EvClose, OnClose, False) \<in> set ?ls"
    by (simp add: listeners_def)
  then have mem: "OnClose \<in> (\<lambda>x. fst (snd x)) ` set ?ls" by force
  obtain s1 r where ca: "call_all k ?ls (Bool hadError) ?s0 = (s1, r)"
    by (cases "call_all k ?ls (Bool hadError) ?s0")
  with close_list_run [OF kinds, of k "Bool hadError" ?s0] mem
  have r: "r = None" "socket s1 = None" by simp_all
  with ca assms(1) have "socket (dispatch (SockClose k hadError) s) = None"
    by (simp add: sock_emit_def Let_def del: upd_sock_fields)
  then show ?thesis by (simp add: step_frame)
qed

lemma without_socket:
  assumes "socket s = None"
  shows "trace (writeAsPromised d h s)
            = trace s @ [Settle (promises s) (Reject (Error ''Socket has closed''))]
          \<and> socket (connectAsPromised h s) = Some (length (sockets s))
          \<and> length (sockets (connectAsPromised h s)) = Suc (length (sockets s))
          \<and> \<not> fired (sockets (connectAsPromised h s) ! length (sockets s))
          \<and> \<not> closed (sockets (connectAsPromised h s) ! length (sockets s))
          \<and> lst (sockets (connectAsPromised h s) ! length (sockets s))
              = [(EvClose, CmdOnClose (promises s), True), (EvError, CmdOnError (promises s), True)]
          \<and> line_listeners (connectAsPromised h s) = line_listeners s @ [(promises s, h)]
          \<and> trace (connectAsPromised h s) = trace s"
  using assms
  by (simp add: writeAsPromised_def connectAsPromised_def resolveCommand_def Let_def upd_sock_def
      createSocket_def once_def settle_def)

text \<open>
  C10 (as the code has it). In every state reached from a new channel in which the
  channel holds a socket \<open>k\<close> whose connect listener has fired, \<open>k\<close> has not closed,
  and when it emits \<open>'close'\<close>, at once (the server disconnects) or after a call of
  \<open>close()\<close>, \<open>_socket\<close> is \<open>null\<close> afterwards. A \<open>write\<close> issued then is rejected with
  \<open>Socket has closed\<close>, and a \<open>connect\<close> issued then creates a new socket and arms the
  greeting correlation on it instead of resolving at once.
\<close>

theorem close_event_clears_socket:
  "let r = run (init sec ob) evs;
       s' = run r ((if by_close then [CallClose] else []) @ [SockClose k hadError]) in
   socket r = Some k \<and> fired (sockets r ! k) \<longrightarrow>
     \<not> closed (sockets r ! k)
     \<and> socket s' = None
     \<and> trace (writeAsPromised d h s')
          = trace s' @ [Settle (promises s') (Reject (Error ''Socket has closed''))]
     \<and> socket (connectAsPromised h s') = Some (length (sockets s'))
     \<and> length (sockets (connectAsPromised h s')) = Suc (length (sockets s'))
     \<and> \<not> fired (sockets (connectAsPromised h s') ! length (sockets s'))
     \<and> \<not> closed (sockets (connectAsPromised h s') ! length (sockets s'))
     \<and> lst (sockets (connectAsPromised h s') ! length (sockets s'))
          = [(EvClose, CmdOnClose (promises s'), True), (EvError, CmdOnError (promises s'), True)]
     \<and> line_listeners (connectAsPromised h s') = line_listeners s' @ [(promises s', h)]
     \<and> trace (connectAsPromised h s') = trace s'"
proof -
  let ?r = "run (init sec ob) evs"
  let ?s' = "run ?r ((if by_close then [CallClose] else []) @ [SockClose k hadError])"
  have main: "\<not> closed (sockets ?r ! k) \<and> socket ?s' = None"
    if a: "socket ?r = Some k" "fired (sockets ?r ! k)"
  proof -
    note w = reachable_wf [of sec ob evs]
    from w(3) a have h: "\<not> closed (sockets ?r ! k)"
      "(EvClose, OnClose, False) \<in> set (lst (sockets ?r ! k))"
      by (simp_all add: held_wired_def wiring_def)
    from w(1) a(1) have k: "k < length (sockets ?r)" by (simp add: wf_state_def)
    with h(1) have l: "live k ?r" by (simp add: live_def)
    show ?thesis
    proof (cases by_close)
      case False
      with onClose_clears [OF l h(2) w(1), of hadError] h(1) show ?thesis
        by (simp add: run_def)
    next
      case True
      let ?r1 = "step ?r CallClose"
      have sk: "sockets ?r1 ! k = (sockets ?r ! k)\<lparr>lst := lst (sockets ?r ! k) @
                   [(EvClose, PromiseResolve (promises ?r), True)], destroyed := True\<rparr>"
        "length (sockets ?r1) = length (sockets ?r)"
        using a(1) k by (simp_all add: step_frame closeAsPromised_def Let_def upd_sock_def once_def)
      with l have l1: "live k ?r1" by (simp add: live_def)
      from h(2) sk have m1: "(EvClose, OnClose, False) \<in> set (lst (sockets ?r1 ! k))" by simp
      from onClose_clears [OF l1 m1 wf_step [OF w(1)], of hadError] True h(1) show ?thesis
        by (simp add: run_def)
    qed
  qed
  show ?thesis
    unfolding Let_def
  proof (rule impI)
    assume "socket ?r = Some k \<and> fired (sockets ?r ! k)"
    with main have m: "\<not> closed (sockets ?r ! k)" "socket ?s' = None" by simp_all
    from m(1) m(2) without_socket [OF m(2), of d h]
    show "\<not> closed (sockets ?r ! k)
     \<and> socket ?s' = None
     \<and> trace (writeAsPromised d h ?s')
          = trace ?s' @ [Settle (promises ?s') (Reject (Error ''Socket has closed''))]
     \<and> socket (connectAsPromised h ?s') = Some (length (sockets ?s'))
     \<and> length (sockets (connectAsPromised h ?s')) = Suc (length (sockets ?s'))
     \<and> \<not> fired (sockets (connectAsPromised h ?s') ! length (sockets ?s'))
     \<and> \<not> closed (sockets (connectAsPromised h ?s') ! length (sockets ?s'))
     \<and> lst (sockets (connectAsPromised h ?s') ! length (sockets ?s'))
          = [(EvClose, CmdOnClose (promises ?s'), True), (EvError, CmdOnError (promises ?s'), True)]
     \<and> line_listeners (connectAsPromised h ?s') = line_listeners ?s' @ [(promises ?s', h)]
     \<and> trace (connectAsPromised h ?s') = trace ?s'"
      by (intro conjI) (elim conjE, assumption)+
  qed
qed

theorem close_event_clears_socket_witness:
  "socket (step greeted (SockClose 0 False)) = None
   \<and> socket (connectAsPromised None (step greeted (SockClose 0 False))) = Some 1
   \<and> socket (run greeted [CallClose, SockClose 0 False]) = None
   \<and> trace (writeAsPromised ''NOOP'' None (run greeted [CallClose, SockClose 0 False]))
       = trace (run greeted [CallClose, SockClose 0 False])
           @ [Settle 2 (Reject (Error ''Socket has closed''))]"
proof -
  have g: "greeted = run (init False True) [CallConnect None, Connected 0, SockData 0 [''220 ready'']]"
    by (simp add: greeted_def)
  have h: "socket greeted = Some 0 \<and> fired (sockets greeted ! 0)" by code_simp
  have l: "length (sockets (step greeted (SockClose 0 False))) = 1"
    "promises (run greeted [CallClose, SockClose 0 False]) = 2" by code_simp+
  from close_event_clears_socket [of False True "[CallConnect None, Connected 0, SockData 0 [''220 ready'']]"
      False 0 False "''NOOP''" None]
    close_event_clears_socket [of False True "[CallConnect None, Connected 0, SockData 0 [''220 ready'']]"
      True 0 False "''NOOP''" None] h l
  show ?thesis unfolding g [symmetric] by (simp add: Let_def run_def)
qed

text \<open>
  C10 as stated does not hold for a socket that closes before it has connected: the
  connect listener, which registers \<open>_onClose\<close>, has not run. After a refused
  connection \<open>_socket\<close> still refers to the closed socket: a \<open>write\<close> is piped to it,
  and \<open>connect\<close> resolves at once without creating a socket.
\<close>

theorem close_before_connected_counterexample:
  "socket dialing = Some 0 \<and> \<not> closed (sockets dialing ! 0)
   \<and> closed (sockets refused ! 0)
   \<and> socket refused = Some 0
   \<and> trace (writeAsPromised ''NOOP'' None refused) = trace refused @ [Pipe 0 ''NOOP'']
   \<and> sockets (connectAsPromised None refused) = sockets refused
   \<and> trace (connectAsPromised None refused) = trace refused @ [Settle 1 (Resolve Undefined)]"
  by code_simp

section \<open>The security flag\<close>

lemma cb_ok_cong:
  "cb y = cb x \<Longrightarrow> lib_tls y = lib_tls x \<Longrightarrow> cb_ok sec y = cb_ok sec x"
  by (simp add: cb_ok_def split: callback.splits)

lemma secure_inv_shell:
  assumes "secure_inv sec s" and "same_shell s s'"
  shows "secure_inv sec s'"
proof -
  from assms(2) have sh: "map shell (sockets s') = map shell (sockets s)"
    and isec: "is_secure s' = is_secure s" and cf: "config_secure s' = config_secure s"
    and so: "socket s' = socket s \<or> socket s' = None"
    by (simp_all add: same_shell_def)
  from sh have len: "length (sockets s') = length (sockets s)"
    by (rule map_eq_imp_length_eq)
  have shk: "shell (sockets s' ! k) = shell (sockets s ! k)" if "k < length (sockets s)" for k
    using sh that len by (metis nth_map)
  have f: "fired (sockets s' ! k) = fired (sockets s ! k)"
    "lib_tls (sockets s' ! k) = lib_tls (sockets s ! k)"
    "cb (sockets s' ! k) = cb (sockets s ! k)" if "k < length (sockets s)" for k
    using shk [OF that] by (metis shell_fields)+
  have a: "k < length (sockets s')
            \<and> (fired (sockets s' ! k) \<longrightarrow> is_secure s' = lib_tls (sockets s' ! k))"
    if "socket s' = Some k" for k
  proof -
    from that so have "socket s = Some k" by auto
    with assms(1) have "k < length (sockets s)"
      "fired (sockets s ! k) \<longrightarrow> is_secure s = lib_tls (sockets s ! k)"
      by (simp_all add: secure_inv_def)
    then show ?thesis by (simp add: len isec f)
  qed
  have b: "cb_ok sec x"
    if "x \<in> set (sockets s')" for x
  proof -
    from that obtain k where k: "k < length (sockets s')" "x = sockets s' ! k"
      by (auto simp: in_set_conv_nth)
    with len have "sockets s ! k \<in> set (sockets s)" by simp
    with assms(1) have "cb_ok sec (sockets s ! k)"
      unfolding secure_inv_def by blast
    with k len show ?thesis using cb_ok_cong [of x "sockets s ! k" sec] by (simp add: f)
  qed
  from assms(1) cf have "config_secure s' = sec" by (simp add: secure_inv_def)
  with a b show ?thesis unfolding secure_inv_def by blast
qed

lemma secure_inv_fields:
  "secure_inv sec (act a s) = secure_inv sec s"
  "secure_inv sec (s\<lparr>jobs := q\<rparr>) = secure_inv sec s"
  by (simp_all add: secure_inv_def)

lemma secure_inv_connect:
  assumes "secure_inv sec s"
  shows "secure_inv sec (connectAsPromised h s)"
proof (cases "socket s")
  case (Some k)
  with assms show ?thesis
    by (simp add: connectAsPromised_def Let_def settle_def secure_inv_def)
next
  case None
  let ?s1 = "(new_promise s)\<lparr>sockets := sockets s @
      [createSocket (config_secure s) (ConnectCb (config_secure s)) None (new_promise s)],
      socket := Some (length (sockets s))\<rparr>"
  from assms have "secure_inv sec ?s1"
    by (auto simp: secure_inv_def createSocket_def cb_ok_def nth_append)
  from secure_inv_shell [OF this resolveCommand_shell] None show ?thesis
    by (simp add: connectAsPromised_def Let_def)
qed

lemma secure_inv_upd:
  assumes "secure_inv sec s"
    and "fired (f (sockets s ! k)) = fired (sockets s ! k)"
    and "lib_tls (f (sockets s ! k)) = lib_tls (sockets s ! k)"
    and "cb (f (sockets s ! k)) = cb (sockets s ! k)"
  shows "secure_inv sec (upd_sock k f s)"
proof -
  let ?s' = "upd_sock k f s"
  have f: "fired (sockets ?s' ! j) = fired (sockets s ! j)"
    "lib_tls (sockets ?s' ! j) = lib_tls (sockets s ! j)"
    "cb (sockets ?s' ! j) = cb (sockets s ! j)" for j
    using assms(2-4) by (simp_all add: upd_sock_nth)
  have b: "cb_ok sec x"
    if "x \<in> set (sockets ?s')" for x
  proof -
    from that obtain j where j: "j < length (sockets s)" "x = sockets ?s' ! j"
      by (auto simp: in_set_conv_nth)
    then have "sockets s ! j \<in> set (sockets s)" by simp
    with assms(1) have "cb_ok sec (sockets s ! j)"
      unfolding secure_inv_def by blast
    with j show ?thesis using cb_ok_cong [of x "sockets s ! j" sec] by (simp add: f)
  qed
  from assms(1) have "config_secure ?s' = sec"
    "\<forall>j. socket ?s' = Some j \<longrightarrow> j < length (sockets ?s')
            \<and> (fired (sockets ?s' ! j) \<longrightarrow> is_secure ?s' = lib_tls (sockets ?s' ! j))"
    by (simp_all add: secure_inv_def f)
  with b show ?thesis unfolding secure_inv_def by blast
qed

lemma secure_inv_lst:
  "secure_inv sec s \<Longrightarrow> secure_inv sec (upd_sock k (once e l) s)"
  "secure_inv sec s \<Longrightarrow> secure_inv sec (upd_sock k (on e l) s)"
  "secure_inv sec s \<Longrightarrow> secure_inv sec (upd_sock k (removeAllListeners e) s)"
  "secure_inv sec s \<Longrightarrow> secure_inv sec (upd_sock k (\<lambda>x. x\<lparr>destroyed := True\<rparr>) s)"
  "secure_inv sec s \<Longrightarrow> secure_inv sec (upd_sock k (\<lambda>x. x\<lparr>closed := True\<rparr>) s)"
  by (rule secure_inv_upd; simp add: once_def on_def removeAllListeners_def)+

lemma secure_inv_forget:
  "secure_inv sec s \<Longrightarrow> secure_inv sec (s\<lparr>socket := None\<rparr>)"
  "secure_inv sec s \<Longrightarrow> secure_inv sec (new_promise s)"
  by (simp_all add: secure_inv_def)

lemma secure_inv_close:
  assumes "secure_inv sec s"
  shows "secure_inv sec (closeAsPromised s)"
proof (cases "socket s")
  case None
  with assms show ?thesis
    by (simp add: closeAsPromised_def Let_def settle_def secure_inv_def)
next
  case (Some k)
  have "secure_inv sec ((act (Destroy k) (upd_sock k (\<lambda>x. x\<lparr>destroyed := True\<rparr>)
          (upd_sock k (once EvClose (PromiseResolve (promises s))) (new_promise s))))\<lparr>socket := None\<rparr>)"
    by (intro secure_inv_forget secure_inv_lst assms secure_inv_fields [THEN iffD2])
  with Some show ?thesis by (simp add: closeAsPromised_def Let_def)
qed

lemma secure_inv_write:
  assumes "secure_inv sec s"
  shows "secure_inv sec (writeAsPromised d h s)"
  using secure_inv_shell [OF assms writeAsPromised_shell] .

lemma secure_inv_negotiate:
  assumes "secure_inv sec s"
  shows "secure_inv sec (negotiateTLSAsPromised s)"
proof (cases "socket s")
  case None
  with assms show ?thesis
    by (simp add: negotiateTLSAsPromised_def Let_def settle_def secure_inv_def)
next
  case (Some k)
  let ?s1 = "upd_sock k (removeAllListeners EvTimeout)
               (upd_sock k (removeAllListeners EvError)
                 (upd_sock k (removeAllListeners EvEnd)
                   (upd_sock k (removeAllListeners EvData)
                     (upd_sock k (removeAllListeners EvClose) (new_promise s)))))"
  have c1: "secure_inv sec ?s1" by (intro secure_inv_lst secure_inv_forget assms)
  let ?s2 = "?s1\<lparr>sockets := sockets ?s1 @ [createSocket True (TlsCb (promises s)) (Some k) ?s1],
                 socket := Some (length (sockets ?s1))\<rparr>"
  from c1 have "secure_inv sec ?s2"
    by (auto simp: secure_inv_def createSocket_def cb_ok_def nth_append)
  then have "secure_inv sec (upd_sock (length (sockets ?s1)) (on EvError (PromiseReject (promises s))) ?s2)"
    by (rule secure_inv_lst)
  with Some show ?thesis by (simp add: negotiateTLSAsPromised_def Let_def)
qed

lemma wire_shell: "same_shell s (wire k s)"
  unfolding wire_def
  by (intro same_shell_trans [OF _ same_shell_upd] same_shell_upd) simp_all

lemma secure_inv_Connected:
  assumes "secure_inv sec s" and "socket s = Some k"
  shows "secure_inv sec (dispatch (Connected k) s)"
proof (cases "live k s \<and> \<not> fired (sockets s ! k)")
  case False
  then have "dispatch (Connected k) s = s" by (cases "live k s") simp_all
  with assms(1) show ?thesis by (simp only:)
next
  case True
  then have k: "k < length (sockets s)" by (simp add: live_def)
  then have mem: "sockets s ! k \<in> set (sockets s)" by simp
  let ?s0 = "upd_sock k (\<lambda>x. x\<lparr>fired := True\<rparr>) s"
  let ?b = "case cb (sockets s ! k) of ConnectCb b \<Rightarrow> b | TlsCb p \<Rightarrow> True"
  from assms(1) mem have tl: "lib_tls (sockets s ! k) = ?b"
    unfolding secure_inv_def cb_ok_def by (auto split: callback.splits)
  have inv0: "secure_inv sec (?s0\<lparr>is_secure := ?b\<rparr>)"
  proof -
    have f: "lib_tls (sockets ?s0 ! j) = lib_tls (sockets s ! j)"
      "cb (sockets ?s0 ! j) = cb (sockets s ! j)" for j
      by (simp_all add: upd_sock_nth)
    have b: "cb_ok sec x"
      if "x \<in> set (sockets ?s0)" for x
    proof -
      from that obtain j where j: "j < length (sockets s)" "x = sockets ?s0 ! j"
        by (auto simp: in_set_conv_nth)
      then have "sockets s ! j \<in> set (sockets s)" by simp
      with assms(1) have "cb_ok sec (sockets s ! j)"
        unfolding secure_inv_def by blast
      with j show ?thesis using cb_ok_cong [of x "sockets s ! j" sec] by (simp add: f)
    qed
    from assms k tl have "config_secure (?s0\<lparr>is_secure := ?b\<rparr>) = sec"
      "\<forall>j. socket (?s0\<lparr>is_secure := ?b\<rparr>) = Some j \<longrightarrow> j < length (sockets (?s0\<lparr>is_secure := ?b\<rparr>))
            \<and> (fired (sockets (?s0\<lparr>is_secure := ?b\<rparr>) ! j) \<longrightarrow>
                 is_secure (?s0\<lparr>is_secure := ?b\<rparr>) = lib_tls (sockets (?s0\<lparr>is_secure := ?b\<rparr>) ! j))"
      by (simp_all add: secure_inv_def f)
    with b show ?thesis unfolding secure_inv_def by simp
  qed
  from secure_inv_shell [OF inv0 wire_shell, of k]
  have w: "secure_inv sec (wire k (?s0\<lparr>is_secure := ?b\<rparr>))" .
  from assms(2) True w show ?thesis
    by (cases "cb (sockets s ! k)")
       (simp_all add: run_callback_def Let_def emit_obs_def settle_def secure_inv_fields)
qed

lemma run_job_trace_only: "fst (run_job j s) = s\<lparr>trace := trace (fst (run_job j s))\<rparr>"
  by (cases j; cases "case j of RunHandler c h l \<Rightarrow> h | _ \<Rightarrow> None")
     (auto simp: Let_def settle_def act_def split: option.splits)

lemma drain_trace_only: "drain q s = s\<lparr>trace := trace (drain q s)\<rparr>"
proof (induction q s rule: drain.induct)
  case (1 s)
  then show ?case by simp
next
  case (2 j q s)
  let ?s1 = "fst (run_job j s)"
  from "2.IH" have "drain (j # q) s = ?s1\<lparr>trace := trace (drain (j # q) s)\<rparr>" by simp
  also have "\<dots> = s\<lparr>trace := trace (drain (j # q) s)\<rparr>"
    by (subst run_job_trace_only) simp
  finally show ?case .
qed

lemma secure_inv_trace: "secure_inv sec (s\<lparr>trace := t\<rparr>) = secure_inv sec s"
  by (simp add: secure_inv_def)

lemma secure_inv_drain: "secure_inv sec (drain q s) = secure_inv sec s"
  by (subst drain_trace_only) (simp add: secure_inv_trace)

lemma secure_inv_sock_event:
  "secure_inv sec s \<Longrightarrow> secure_inv sec (if live k s then sock_emit k e a s else s)"
  using secure_inv_shell [OF _ sock_emit_shell] by simp

lemma secure_inv_dispatch:
  assumes "secure_inv sec s" and "case e of Connected k \<Rightarrow> socket s = Some k | _ \<Rightarrow> True"
  shows "secure_inv sec (dispatch e s)"
proof (cases e)
  case (Connected k)
  with assms secure_inv_Connected [of sec s k] show ?thesis by simp
next
  case (SockClose k hadError)
  from assms(1) have "secure_inv sec (upd_sock k (\<lambda>x. x\<lparr>closed := True\<rparr>) s)"
    by (rule secure_inv_lst)
  from secure_inv_shell [OF this sock_emit_shell] assms(1) show ?thesis
    unfolding SockClose by simp
next
  case (SockData k ls)
  from secure_inv_sock_event [OF assms(1)] show ?thesis unfolding SockData dispatch.simps .
next
  case (SockEnd k)
  from secure_inv_sock_event [OF assms(1)] show ?thesis unfolding SockEnd dispatch.simps .
next
  case (SockError k x)
  from secure_inv_sock_event [OF assms(1)] show ?thesis unfolding SockError dispatch.simps .
next
  case (SockTimeout k)
  from secure_inv_sock_event [OF assms(1)] show ?thesis unfolding SockTimeout dispatch.simps .
next
  case (CallConnect h)
  from secure_inv_connect [OF assms(1)] show ?thesis unfolding CallConnect dispatch.simps .
next
  case CallClose
  from secure_inv_close [OF assms(1)] show ?thesis unfolding CallClose dispatch.simps .
next
  case (CallWrite d h)
  from secure_inv_write [OF assms(1)] show ?thesis unfolding CallWrite dispatch.simps .
next
  case CallNegotiateTLS
  from secure_inv_negotiate [OF assms(1)] show ?thesis unfolding CallNegotiateTLS dispatch.simps .
qed

lemma secure_inv_step:
  assumes "secure_inv sec s" and "case e of Connected k \<Rightarrow> socket s = Some k | _ \<Rightarrow> True"
  shows "secure_inv sec (step s e)"
  using secure_inv_dispatch [OF assms]
  by (simp add: step_def Let_def secure_inv_drain secure_inv_fields)

lemma secure_inv_run:
  "secure_inv sec s \<Longrightarrow> current_only s es \<Longrightarrow> secure_inv sec (run s es)"
proof (induction es arbitrary: s)
  case Nil
  then show ?case by (simp add: run_def)
next
  case (Cons e es)
  from Cons.prems have "secure_inv sec (step s e)" by (intro secure_inv_step) simp_all
  with Cons.IH [of "step s e"] Cons.prems show ?case by (simp add: run_def)
qed

text \<open>
  In sessions in which every connect listener fires for the socket that the channel
  holds at that moment, the flag agrees with the current socket once that socket has
  connected.
\<close>

lemma isSecure_current_only:
  assumes "current_only (init sec obs) es"
    and "socket (run (init sec obs) es) = Some k"
    and "fired (sockets (run (init sec obs) es) ! k)"
  shows "isSecure (run (init sec obs) es) = lib_tls (sockets (run (init sec obs) es) ! k)
     \<and> (case cb (sockets (run (init sec obs) es) ! k) of
          ConnectCb b \<Rightarrow> isSecure (run (init sec obs) es) = sec
        | TlsCb p \<Rightarrow> isSecure (run (init sec obs) es))"
proof -
  let ?s = "run (init sec obs) es"
  have "secure_inv sec (init sec obs)" by (simp add: secure_inv_def init_def)
  from secure_inv_run [OF this assms(1)] have inv: "secure_inv sec ?s" .
  with assms(2,3) have k: "k < length (sockets ?s)" "is_secure ?s = lib_tls (sockets ?s ! k)"
    by (simp_all add: secure_inv_def)
  then have "sockets ?s ! k \<in> set (sockets ?s)" by simp
  with inv have "cb_ok sec (sockets ?s ! k)"
    unfolding secure_inv_def by blast
  with k show ?thesis by (simp add: isSecure_def cb_ok_def split: callback.splits)
qed

text \<open>
  C8, at the failing input. After a plaintext connect \<open>isSecure()\<close> is false and
  after an upgrade it is true, but the connect listener of \<open>_connectAsPromised\<close> sets
  \<open>_isSecure\<close> without looking whether the channel still holds the socket it was made
  for. In the session \<open>late_connect\<close> the channel holds socket 3, a connected TLS socket
  made by \<open>negotiateTLS\<close>; \<open>isSecure()\<close> is true before socket 1 connects and false
  after.
\<close>

theorem isSecure_stale_connect_listener:
  "\<not> isSecure greeted \<and> isSecure upgraded
   \<and> isSecure (run (init False True) (butlast late_connect))
   \<and> socket overtaken = Some 3
   \<and> fired (sockets overtaken ! 3) \<and> \<not> closed (sockets overtaken ! 3)
   \<and> cb (sockets overtaken ! 3) = TlsCb 5 \<and> base (sockets overtaken ! 3) = Some 2
   \<and> lib_tls (sockets overtaken ! 3)
   \<and> \<not> isSecure overtaken"
  by code_simp

section \<open>Command correlation: the close path\<close>

lemma view_nth:
  assumes "same_view p s s'" and "same_shell s s'" and "j < length (sockets s)"
  shows "filter (mentions p) (lst (sockets s' ! j)) = filter (mentions p) (lst (sockets s ! j))"
proof -
  from assms(2) have "map shell (sockets s') = map shell (sockets s)"
    by (simp add: same_shell_def)
  then have len: "length (sockets s') = length (sockets s)"
    by (rule map_eq_imp_length_eq)
  from assms(1) have "entries_of p s' = entries_of p s" by (simp add: same_view_def)
  then have "entries_of p s' ! j = entries_of p s ! j" by simp
  with assms(3) len show ?thesis by (simp add: entries_of_def)
qed

lemma remove_last_single:
  "P x \<Longrightarrow> remove_last P [x] = []"
  "remove_last P [] = []"
  by (simp_all add: remove_last_def)

lemma cmd_onClose_effect:
  assumes "filter (mentions c) (lst (sockets s ! k)) = es"
    and "es = [] \<or> es = [(EvError, CmdOnError c, True)]"
    and "length (lines_of c s) = 1" and "k < length (sockets s)"
  shows "snd (cmd_onClose c s) = None"
    and "calls c (fst (cmd_onClose c s))
           = calls c s @ [Reject (Error ''Socket has closed unexpectedly'')]"
    and "lines_of c (fst (cmd_onClose c s)) = []"
    and "jobs (fst (cmd_onClose c s)) = jobs s"
    and "same_shell s (fst (cmd_onClose c s))"
    and "filter (mentions c) (lst (sockets (fst (cmd_onClose c s)) ! k))
           = (if socket s = Some k then [] else es)"
    and "\<And>j. filter (mentions c) (lst (sockets s ! j)) = [] \<Longrightarrow>
           filter (mentions c) (lst (sockets (fst (cmd_onClose c s)) ! j)) = []"
proof -
  let ?P = "\<lambda>x. fst x = EvError \<and> fst (snd x) = CmdOnError c"
  have m: "?P x \<Longrightarrow> mentions c x" for x :: entry by (simp add: mentions_def)
  have rl: "filter (mentions c) (lst (removeListener EvError (CmdOnError c) x))
             = remove_last ?P (filter (mentions c) (lst x))" for x
    unfolding removeListener_def using filter_remove_last_self [of ?P "mentions c" "lst x"] m
    by simp
  have ul: "lines_of c (unlisten_line c t) = remove_last (\<lambda>x. fst x = c) (lines_of c t)" for t
    unfolding lines_of_def unlisten_line_def
    using filter_remove_last_self [of "\<lambda>x. fst x = c" "\<lambda>x. fst x = c" "line_listeners t"]
    by simp
  show "snd (cmd_onClose c s) = None" by (simp add: cmd_onClose_def Let_def)
  show "calls c (fst (cmd_onClose c s))
           = calls c s @ [Reject (Error ''Socket has closed unexpectedly'')]"
    by (simp add: cmd_onClose_def Let_def settle_def calls_act split: option.splits)
  from assms(3) obtain x where x: "lines_of c s = [x]"
    by (cases "lines_of c s") simp_all
  then have "x \<in> set (lines_of c s)" by simp
  then have "fst x = c" by (simp add: lines_of_def)
  with x show "lines_of c (fst (cmd_onClose c s)) = []"
    by (simp add: cmd_onClose_def Let_def settle_def ul remove_last_single split: option.splits)
  show "jobs (fst (cmd_onClose c s)) = jobs s"
    by (simp add: cmd_onClose_def Let_def settle_def split: option.splits)
  show "same_shell s (fst (cmd_onClose c s))" by (rule cmd_onClose_shell)
  show "filter (mentions c) (lst (sockets (fst (cmd_onClose c s)) ! k))
           = (if socket s = Some k then [] else es)"
    using assms(1,2,4)
    by (auto simp: cmd_onClose_def Let_def settle_def upd_sock_nth rl remove_last_single
        split: option.splits)
  show "filter (mentions c) (lst (sockets (fst (cmd_onClose c s)) ! j)) = []"
    if "filter (mentions c) (lst (sockets s ! j)) = []" for j
    using that
    by (auto simp: cmd_onClose_def Let_def settle_def upd_sock_nth rl remove_last_single
        simp del: filter_empty_conv split: option.splits)
qed

lemma close_path:
  assumes live: "live k s"
    and kinds: "\<forall>x\<in>set (lst (sockets s ! k)). kind (fst (snd x)) = fst x"
    and dec: "listeners EvClose (sockets s ! k) = pre @ (EvClose, CmdOnClose c, True) # post"
    and nm: "\<forall>x\<in>set (pre @ post). \<not> mentions c x"
    and ent: "filter (mentions c) (lst (sockets s ! k)) = (EvClose, CmdOnClose c, True) # es"
    and es: "es = [] \<or> es = [(EvError, CmdOnError c, True)]"
    and line: "length (lines_of c s) = 1"
    and lt: "c < promises s"
    and jobs: "jobs s = []"
  shows "calls c (step s (SockClose k hadError))
           = calls c s @ [Reject (Error ''Socket has closed unexpectedly'')]"
    and "lines_of c (step s (SockClose k hadError)) = []"
    and "jobs (step s (SockClose k hadError)) = []"
    and "filter (mentions c) (lst (sockets (step s (SockClose k hadError)) ! k))
           = (if socket s = Some k \<and> OnClose \<notin> (\<lambda>x. fst (snd x)) ` set pre then [] else es)"
    and "\<And>j. j < length (sockets s) \<Longrightarrow> j \<noteq> k \<Longrightarrow>
           filter (mentions c) (lst (sockets s ! j)) = [] \<Longrightarrow>
           filter (mentions c) (lst (sockets (step s (SockClose k hadError)) ! j)) = []"
    and "same_shell (upd_sock k (\<lambda>x. x\<lparr>closed := True\<rparr>) s) (step s (SockClose k hadError))"
    and "c < promises (step s (SockClose k hadError))"
proof -
  let ?a = "Bool hadError"
  let ?Ec = "(EvClose, CmdOnClose c, True)"
  let ?s0 = "upd_sock k (\<lambda>x. x\<lparr>closed := True\<rparr>) s"
  let ?E = "\<lambda>j t. filter (mentions c) (lst (sockets t ! j))"
  from live have k: "k < length (sockets s)" by (simp add: live_def)
  then have lst0: "lst (sockets ?s0 ! j) = lst (sockets s ! j)" for j
    by (simp add: upd_sock_nth)
  from dec have ls0: "listeners EvClose (sockets ?s0 ! k) = pre @ ?Ec # post"
    by (simp add: listeners_def lst0)
  have "set (pre @ ?Ec # post) = set (listeners EvClose (sockets s ! k))"
    using dec by simp
  then have mem: "set (pre @ ?Ec # post) = {x \<in> set (lst (sockets s ! k)). fst x = EvClose}"
    by (simp add: listeners_def)
  then have sub: "set (pre @ ?Ec # post) \<subseteq> set (lst (sockets s ! k))" by blast
  have kall: "kind (fst (snd x)) = EvClose" if "x \<in> set (pre @ ?Ec # post)" for x
  proof -
    from that mem have "x \<in> set (lst (sockets s ! k))" "fst x = EvClose" by blast+
    with kinds show ?thesis by simp
  qed
  have kpre: "\<forall>x\<in>set pre. kind (fst (snd x)) = EvClose"
    and kpost: "\<forall>x\<in>set post. kind (fst (snd x)) = EvClose"
    using kall by simp_all
  from kpre have nrpre: "\<forall>x\<in>set pre. fst (snd x) \<noteq> OnReceive" by auto
  from kpost have nrpost: "\<forall>x\<in>set post. fst (snd x) \<noteq> OnReceive" by auto
  obtain s1 r1 where c1: "call_all k pre ?a ?s0 = (s1, r1)" by (cases "call_all k pre ?a ?s0")
  from close_list_run [OF kpre, of k ?a ?s0] c1 jobs
  have r1: "r1 = None" "jobs s1 = []"
    "socket s1 = (if OnClose \<in> (\<lambda>x. fst (snd x)) ` set pre then None else socket s)"
    by simp_all
  have v1: "same_view c ?s0 s1"
    using call_all_other [of pre c ?s0 k ?a] nm lt nrpre c1 by simp
  have h1: "same_shell ?s0 s1" using call_all_shell [of ?s0 k pre ?a] c1 by simp
  have len1: "length (sockets s1) = length (sockets s)" using shell_nth(1) [OF h1] by simp
  have E1: "?E j s1 = ?E j s" if "j < length (sockets s)" for j
    using view_nth [OF v1 h1, of j] that by (simp add: lst0)
  let ?s1' = "upd_sock k (\<lambda>x. x\<lparr>lst := remove1 ?Ec (lst x)\<rparr>) s1"
  have E1'k: "?E k ?s1' = es"
    using E1 [OF k] ent k len1 by (simp add: upd_sock_nth filter_remove1)
  have E1'j: "?E j ?s1' = ?E j s" if "j < length (sockets s)" "j \<noteq> k" for j
    using E1 [OF that(1)] that by (simp add: upd_sock_nth)
  have l1': "length (lines_of c ?s1') = 1" using v1 line by (simp add: same_view_def)
  have k1': "k < length (sockets ?s1')" using k len1 by simp
  note eff = cmd_onClose_effect [OF E1'k es l1' k1']
  obtain s2 where s2: "cmd_onClose c ?s1' = (s2, None)"
    using eff(1) by (cases "cmd_onClose c ?s1'") simp
  have lt2: "c < promises s2"
    using eff(5) s2 v1 lt by (simp add: same_shell_def same_view_def)
  have len2: "length (sockets s2) = length (sockets s)"
    using shell_nth(1) [OF eff(5)] s2 len1 by simp
  obtain s3 r3 where c3: "call_all k post ?a s2 = (s3, r3)" by (cases "call_all k post ?a s2")
  from close_list_run [OF kpost, of k ?a s2] c3 eff(4) s2 r1
  have r3: "r3 = None" "jobs s3 = []" by simp_all
  have v3: "same_view c s2 s3"
    using call_all_other [of post c s2 k ?a] nm lt2 nrpost c3 by simp
  have h3: "same_shell s2 s3" using call_all_shell [of s2 k post ?a] c3 by simp
  have "call_all k (pre @ ?Ec # post) ?a ?s0 = (s3, None)"
    using c1 r1 s2 c3 r3 by (simp add: call_all_append Let_def)
  with ls0 live have d: "dispatch (SockClose k hadError) s = s3"
    by (simp add: sock_emit_def Let_def)
  have st: "step s (SockClose k hadError) = s3"
    using d r3 by (simp add: step_def Let_def)
  have E3: "?E j s3 = ?E j s2" if "j < length (sockets s)" for j
    using view_nth [OF v3 h3, of j] that len2 by simp
  show "calls c (step s (SockClose k hadError))
           = calls c s @ [Reject (Error ''Socket has closed unexpectedly'')]"
    using eff(2) s2 v1 v3 by (simp add: st same_view_def)
  show "lines_of c (step s (SockClose k hadError)) = []"
    using eff(3) s2 v3 by (simp add: st same_view_def)
  show "jobs (step s (SockClose k hadError)) = []" using r3 by (simp add: st)
  show "filter (mentions c) (lst (sockets (step s (SockClose k hadError)) ! k))
           = (if socket s = Some k \<and> OnClose \<notin> (\<lambda>x. fst (snd x)) ` set pre then [] else es)"
    using eff(6) s2 E3 [OF k] r1(3) by (auto simp: st)
  show "filter (mentions c) (lst (sockets (step s (SockClose k hadError)) ! j)) = []"
    if "j < length (sockets s)" "j \<noteq> k" "filter (mentions c) (lst (sockets s ! j)) = []" for j
    using eff(7) [of j] s2 E3 [OF that(1)] E1'j [OF that(1,2)] that(3) by (simp add: st)
  have "same_shell s1 ?s1'" by (simp add: same_shell_upd)
  with h1 eff(5) s2 h3 show "same_shell ?s0 (step s (SockClose k hadError))"
    unfolding st by (auto intro: same_shell_trans)
  show "c < promises (step s (SockClose k hadError))"
    using h3 lt2 by (simp add: st same_shell_def)
qed

text \<open>
  C5 (as the code has it). In a well-formed state with an empty microtask queue, let
  the \<open>onClose\<close> listener of command \<open>c\<close> be registered on socket \<open>k\<close>, with \<open>pre\<close> the
  close listeners registered before it, and let the command's \<open>onLine\<close> listener be
  registered once. When \<open>k\<close> emits \<open>'close'\<close>, \<open>reject\<close> is
  called with \<open>Socket has closed unexpectedly\<close> (so the promise rejects with it unless it
  was settled before), and the command's line and close listeners are gone. Its error
  listener is removed only if the channel still holds \<open>k\<close> when \<open>onClose\<close> runs, that is
  if \<open>_socket\<close> is \<open>k\<close> and the channel's \<open>_onClose\<close> is not among \<open>pre\<close>; otherwise it
  stays on the closed socket.
\<close>

theorem close_before_terminal_rejects:
  assumes "live k s"
    and "wf_state s"
    and "jobs s = []"
    and "listeners EvClose (sockets s ! k) = pre @ (EvClose, CmdOnClose c, True) # post"
    and "\<forall>x\<in>set (pre @ post). \<not> mentions c x"
    and "filter (mentions c) (lst (sockets s ! k)) = (EvClose, CmdOnClose c, True) # es"
    and "es = [] \<or> es = [(EvError, CmdOnError c, True)]"
    and "length (lines_of c s) = 1"
  shows "calls c (step s (SockClose k hadError))
           = calls c s @ [Reject (Error ''Socket has closed unexpectedly'')]
     \<and> (calls c s = [] \<longrightarrow>
          promise_state c (step s (SockClose k hadError))
            = Some (Reject (Error ''Socket has closed unexpectedly'')))
     \<and> lines_of c (step s (SockClose k hadError)) = []
     \<and> filter (mentions c) (lst (sockets (step s (SockClose k hadError)) ! k))
          = (if socket s = Some k \<and> OnClose \<notin> (\<lambda>x. fst (snd x)) ` set pre then [] else es)"
proof -
  from assms(1) have k: "k < length (sockets s)" by (simp add: live_def)
  from wf_kinds [OF assms(2) k]
  have kinds: "\<forall>x\<in>set (lst (sockets s ! k)). kind (fst (snd x)) = fst x" .
  have "(EvClose, CmdOnClose c, True) \<in> set (filter (mentions c) (lst (sockets s ! k)))"
    by (simp add: assms(6))
  then have m: "(EvClose, CmdOnClose c, True) \<in> set (lst (sockets s ! k))" by simp
  from k have "sockets s ! k \<in> set (sockets s)" by simp
  with assms(2) m have "entry_ok (promises s) (EvClose, CmdOnClose c, True)"
    unfolding wf_state_def sock_ok_def by blast
  then have lt: "c < promises s" by (simp add: entry_ok_def)
  from close_path(1,2,4) [OF assms(1) kinds assms(4-8) lt assms(3), where hadError = hadError]
  show ?thesis by (simp add: promise_state_def)
qed

theorem close_before_terminal_rejects_witness:
  "promise_state 1 (step written (SockClose 0 False))
     = Some (Reject (Error ''Socket has closed unexpectedly''))
   \<and> filter (mentions 1) (lst (sockets (step written (SockClose 0 False)) ! 0))
       = [(EvError, CmdOnError 1, True)]
   \<and> promise_state 0 (step dialing (SockClose 0 False))
       = Some (Reject (Error ''Socket has closed unexpectedly''))
   \<and> filter (mentions 0) (lst (sockets (step dialing (SockClose 0 False)) ! 0)) = []"
proof -
  have w: "live 0 written"
    "jobs written = []"
    "listeners EvClose (sockets written ! 0)
       = [(EvClose, OnClose, False)] @ (EvClose, CmdOnClose 1, True) # []"
    "\<forall>x\<in>set ([(EvClose, OnClose, False)] @ []). \<not> mentions 1 x"
    "filter (mentions 1) (lst (sockets written ! 0))
       = (EvClose, CmdOnClose 1, True) # [(EvError, CmdOnError 1, True)]"
    "[(EvError, CmdOnError 1, True)] = [] \<or> [(EvError, CmdOnError 1, True)] = [(EvError, CmdOnError 1, True)]"
    "length (lines_of 1 written) = 1"
    by code_simp+
  have ww: "wf_state written" by (simp add: written_def greeted_def wf_run wf_init)
  have w': "calls 1 written = []" "socket written = Some 0" by code_simp+
  have d: "live 0 dialing"
    "jobs dialing = []"
    "listeners EvClose (sockets dialing ! 0) = [] @ (EvClose, CmdOnClose 0, True) # []"
    "\<forall>x\<in>set ([] @ []). \<not> mentions 0 x"
    "filter (mentions 0) (lst (sockets dialing ! 0))
       = (EvClose, CmdOnClose 0, True) # [(EvError, CmdOnError 0, True)]"
    "[(EvError, CmdOnError 0, True)] = [] \<or> [(EvError, CmdOnError 0, True)] = [(EvError, CmdOnError 0, True)]"
    "length (lines_of 0 dialing) = 1"
    by code_simp+
  have wd: "wf_state dialing" by (simp add: dialing_def wf_run wf_init)
  have d': "calls 0 dialing = []" "socket dialing = Some 0" by code_simp+
  from close_before_terminal_rejects [OF w(1) ww w(2-), where hadError = False] w'
    close_before_terminal_rejects [OF d(1) wd d(2-), where hadError = False] d'
  show ?thesis by simp
qed

text \<open>
  C5 as stated fails: after \<open>write\<close> and an unexpected close, the promise is rejected
  with the close error, and the command's error listener is still registered on the
  socket.
\<close>

theorem close_leaves_error_listener_counterexample:
  "calls 1 dropped = [Reject (Error ''Socket has closed unexpectedly'')]
   \<and> (EvError, CmdOnError 1, True) \<in> set (lst (sockets dropped ! 0))"
  by code_simp

section \<open>Inactivity timeout\<close>





section \<open>Command correlation: exactly-once settlement\<close>

lemma resolves_append [simp]: "resolves (xs @ ys) = resolves xs @ resolves ys"
  by (induction xs) simp_all

lemma resolves_nonterminal: "\<forall>l\<in>set ls. \<not> truthy (isLastReply l) \<Longrightarrow> resolves ls = []"
  by (induction ls) simp_all

lemma drain_catch:
  "calls c (drain (map CatchPass zs) s) = calls c s"
  by (induction zs arbitrary: s) simp_all

lemma drain_then:
  "calls c (drain (map (ThenResolve c) ys @ map CatchPass zs) s) = calls c s @ resolves ys"
proof (induction ys arbitrary: zs s)
  case Nil
  then show ?case by (simp add: drain_catch)
next
  case (Cons y ys)
  let ?s' = "if truthy (isLastReply y) then settle c (Resolve (parseReplyCode y)) s else s"
  have "drain (map (ThenResolve c) (y # ys) @ map CatchPass zs) s
        = drain (map (ThenResolve c) ys @ map CatchPass (zs @ [c])) ?s'"
    by simp
  with Cons.IH [of "zs @ [c]" ?s'] show ?case
    by (simp add: settle_def calls_act)
qed

lemma run_job_quiet:
  "quiet h [l] \<Longrightarrow> snd (run_job (RunHandler c h l) s) = [ThenResolve c l]
     \<and> calls c (fst (run_job (RunHandler c h l) s)) = calls c s"
  by (cases h) (simp_all add: quiet_def Let_def calls_act)

lemma quiet_Cons: "quiet h (l # ls) = (quiet h [l] \<and> quiet h ls)"
  by (cases h) (auto simp: quiet_def)

lemma quiet_append: "quiet h (xs @ ys) = (quiet h xs \<and> quiet h ys)"
  by (cases h) (auto simp: quiet_def)

lemma drain_handlers:
  "quiet h xs \<Longrightarrow>
   calls c (drain (map (RunHandler c h) xs @ map (ThenResolve c) ys) s)
     = calls c s @ resolves (ys @ xs)"
proof (induction xs arbitrary: ys s)
  case Nil
  from drain_then [of c ys "[]" s] show ?case by simp
next
  case (Cons x xs)
  from Cons.prems have q: "quiet h [x]" "quiet h xs" by (simp_all add: quiet_Cons [of h x xs])
  let ?s' = "fst (run_job (RunHandler c h x) s)"
  have "drain (map (RunHandler c h) (x # xs) @ map (ThenResolve c) ys) s
        = drain (map (RunHandler c h) xs @ map (ThenResolve c) (ys @ [x])) ?s'"
    using run_job_quiet [OF q(1), of c s] by simp
  with Cons.IH [OF q(2), of "ys @ [x]" ?s'] run_job_quiet [OF q(1), of c s] show ?case
    by simp
qed

lemma feed_no_listeners: "line_listeners s = [] \<Longrightarrow> feed ls s = (s, None)"
  by (induction ls) simp_all

lemma feed_nonterminal:
  "line_listeners s = [(c, h)] \<Longrightarrow> \<forall>l\<in>set pre. \<not> truthy (isLastReply l) \<Longrightarrow>
   feed (pre @ rest) s = feed rest (s\<lparr>jobs := jobs s @ map (RunHandler c h) pre\<rparr>)"
proof (induction pre arbitrary: s)
  case Nil
  then show ?case by simp
next
  case (Cons l pre)
  let ?s1 = "s\<lparr>jobs := jobs s @ [RunHandler c h l]\<rparr>"
  from Cons.prems have "feed ((l # pre) @ rest) s = feed (pre @ rest) ?s1"
    by (simp add: cmd_onLine_def Let_def)
  also from Cons.prems have "\<dots> = feed rest (?s1\<lparr>jobs := jobs ?s1 @ map (RunHandler c h) pre\<rparr>)"
    by (intro Cons.IH) simp_all
  finally show ?case by simp
qed

lemma onReply_all_fields:
  "jobs (onReply_all ls s) = jobs s" "sockets (onReply_all ls s) = sockets s"
  "line_listeners (onReply_all ls s) = line_listeners s" "calls c (onReply_all ls s) = calls c s"
  "promises (onReply_all ls s) = promises s"
  by (induction ls arbitrary: s) (simp_all add: calls_act)

lemma single_split:
  assumes "filter P xs = [x]"
  obtains pre post where "xs = pre @ x # post" and "\<forall>y\<in>set (pre @ post). \<not> P y"
proof -
  from assms obtain us vs where "xs = us @ x # vs" "\<forall>u\<in>set us. \<not> P u" "[] = filter P vs"
    unfolding filter_eq_Cons_iff by blast
  moreover from this(3) have "\<forall>v\<in>set vs. \<not> P v" by (metis filter_empty_conv)
  ultimately show ?thesis using that [of us vs] by auto
qed

lemma listeners_mentions:
  "filter (mentions c) (listeners e x) = filter (\<lambda>y. fst y = e) (filter (mentions c) (lst x))"
  by (simp add: listeners_def conj_commute)

lemma removeListener_self:
  "promise_of l = Some c \<Longrightarrow>
   filter (mentions c) (lst (removeListener e l x))
     = remove_last (\<lambda>y. fst y = e \<and> fst (snd y) = l) (filter (mentions c) (lst x))"
  unfolding removeListener_def
  using filter_remove_last_self [of "\<lambda>y. fst y = e \<and> fst (snd y) = l" "mentions c" "lst x"]
  by (simp add: mentions_def)

lemma unlisten_line_self:
  "lines_of c (unlisten_line c t) = remove_last (\<lambda>x. fst x = c) (lines_of c t)"
  unfolding lines_of_def unlisten_line_def
  using filter_remove_last_self [of "\<lambda>x. fst x = c" "\<lambda>x. fst x = c" "line_listeners t"]
  by simp

lemma armed_handler:
  assumes "armed c k es s"
  obtains h where "line_listeners s = [(c, h)]"
proof -
  from assms have "map fst (line_listeners s) = [c]" by (simp add: armed_def)
  then obtain x where "line_listeners s = [x]" "fst x = c" by auto
  then show ?thesis using that [of "snd x"] by (cases x) simp
qed

lemma inert_confined:
  assumes "c < promises s'" and "lines_of c s' = []" and "jobs s' = []"
    and "length (sockets s') = length (sockets s)"
    and "\<And>j. j < length (sockets s) \<Longrightarrow> \<not> closed (sockets s' ! j) \<Longrightarrow>
           filter (mentions c) (lst (sockets s' ! j)) = []"
    and "\<And>j. j < length (sockets s) \<Longrightarrow> \<not> fired (sockets s' ! j) \<Longrightarrow>
           cb (sockets s' ! j) \<noteq> TlsCb c"
  shows "confined c {} s'"
proof -
  have "\<not> mentions c x" if "j < length (sockets s)" "\<not> closed (sockets s' ! j)"
    "x \<in> set (lst (sockets s' ! j))" for j x
    using assms(5) [OF that(1,2)] that(3) by (simp add: filter_empty_conv)
  with assms(1-4,6) show ?thesis
    unfolding confined_def by (auto simp: jobs_of_def)
qed

lemma line_path:
  assumes arm: "armed c k es s"
    and data: "listeners EvData (sockets s ! k) = [(EvData, OnReceive, False)]"
    and nt: "\<forall>l\<in>set pre. \<not> truthy (isLastReply l)"
    and tm: "truthy (isLastReply t)"
    and qu: "\<forall>x\<in>set (line_listeners s). quiet (snd x) (pre @ [t])"
  shows "calls c (step s (SockData k (pre @ t # post))) = calls c s @ [Resolve (parseReplyCode t)]"
    and "confined c {} (step s (SockData k (pre @ t # post)))"
proof -
  let ?ls = "pre @ t # post"
  let ?Pc = "\<lambda>y. fst y = EvClose \<and> fst (snd y) = CmdOnClose c"
  let ?Pe = "\<lambda>y. fst y = EvError \<and> fst (snd y) = CmdOnError c"
  from arm obtain h where ll: "line_listeners s = [(c, h)]" by (rule armed_handler)
  with qu have q: "quiet h (pre @ [t])" by simp
  from arm have k: "k < length (sockets s)" and lv: "live k s" and so: "socket s = Some k"
    and jb: "jobs s = []" and lt: "c < promises s"
    and ent: "filter (mentions c) (lst (sockets s ! k)) = (EvClose, CmdOnClose c, True) # es"
    and es: "es = [] \<or> es = [(EvError, CmdOnError c, True)]"
    by (simp_all add: armed_def live_def)
  let ?sa = "act (Emit ObsReceive) s"
  let ?sb = "?sa\<lparr>jobs := jobs ?sa @ map (RunHandler c h) pre\<rparr>"
  let ?sc = "unlisten_line c
               (upd_sock k (removeListener EvError (CmdOnError c))
                 (upd_sock k (removeListener EvClose (CmdOnClose c))
                   (?sb\<lparr>jobs := jobs ?sb @ [RunHandler c h t]\<rparr>)))"
  have f1: "feed ?ls ?sa = feed (t # post) ?sb"
    using ll nt by (intro feed_nonterminal) simp_all
  have llc: "line_listeners ?sc = []"
    using ll by (simp add: unlisten_line_def remove_last_def)
  have "feed (t # post) ?sb = feed post ?sc"
    using ll tm so by (simp add: cmd_onLine_def Let_def)
  with f1 feed_no_listeners [OF llc, of post] have fd: "feed ?ls ?sa = (?sc, None)" by simp
  define sd where "sd = onReply_all ?ls ?sc"
  have rc: "ch_onReceive (Lines ?ls) s = (sd, None)"
    using fd by (simp add: ch_onReceive_def Let_def sd_def)
  have d: "dispatch (SockData k ?ls) s = sd"
    using lv data rc by (simp add: sock_emit_def Let_def)
  have jd: "jobs sd = map (RunHandler c h) (pre @ [t]) @ map (ThenResolve c) []"
    using jb by (simp add: sd_def onReply_all_fields)
  have cd: "calls c sd = calls c s"
    by (simp add: sd_def onReply_all_fields calls_act)
  have pd: "promises sd = promises s" "line_listeners sd = []"
    "length (sockets sd) = length (sockets s)"
    using llc by (simp_all add: sd_def onReply_all_fields)
  have sk: "filter (mentions c) (lst (sockets sd ! k)) = []"
    using k ent es
    by (auto simp: sd_def onReply_all_fields upd_sock_nth removeListener_self remove_last_def)
  have sj: "lst (sockets sd ! j) = lst (sockets s ! j)" if "j \<noteq> k" for j
    using that by (simp add: sd_def onReply_all_fields upd_sock_nth)
  have sh: "shell (sockets sd ! j) = shell (sockets s ! j)" for j
    by (simp add: sd_def onReply_all_fields upd_sock_nth)
  have fl: "closed (sockets sd ! j) = closed (sockets s ! j)"
    "fired (sockets sd ! j) = fired (sockets s ! j)"
    "cb (sockets sd ! j) = cb (sockets s ! j)" for j
    using sh [of j] by (metis shell_fields)+
  have st: "step s (SockData k ?ls) = drain (jobs sd) (sd\<lparr>jobs := []\<rparr>)"
    by (simp only: step_def Let_def d)
  have "calls c (step s (SockData k ?ls)) = calls c (sd\<lparr>jobs := []\<rparr>) @ resolves ([] @ pre @ [t])"
    unfolding st jd by (rule drain_handlers [OF q])
  then show "calls c (step s (SockData k ?ls)) = calls c s @ [Resolve (parseReplyCode t)]"
    using cd nt tm by (simp add: resolves_nonterminal)
  have fr: "sockets (step s (SockData k ?ls)) = sockets sd"
    "promises (step s (SockData k ?ls)) = promises sd"
    "line_listeners (step s (SockData k ?ls)) = line_listeners sd"
    "jobs (step s (SockData k ?ls)) = []"
    by (simp_all only: step_frame d)
  show "confined c {} (step s (SockData k ?ls))"
  proof (rule inert_confined [where s = s])
    show "c < promises (step s (SockData k ?ls))" using lt by (simp add: fr pd)
    show "lines_of c (step s (SockData k ?ls)) = []" by (simp add: lines_of_def fr pd)
    show "jobs (step s (SockData k ?ls)) = []" by (simp add: fr)
    show "length (sockets (step s (SockData k ?ls))) = length (sockets s)"
      by (simp add: fr pd)
    show "filter (mentions c) (lst (sockets (step s (SockData k ?ls)) ! j)) = []"
      if "j < length (sockets s)" for j
      using arm that sk sj [of j] by (cases "j = k") (simp_all add: fr armed_def)
    show "cb (sockets (step s (SockData k ?ls)) ! j) \<noteq> TlsCb c"
      if "j < length (sockets s)" "\<not> fired (sockets (step s (SockData k ?ls)) ! j)" for j
      using arm that by (simp add: fr fl armed_def)
  qed
qed

text \<open>
  Arming: in a well-formed state, a \<open>write\<close> on the socket the channel holds, while no
  command is outstanding, arms its command in the sense of \<open>armed\<close>, with both the close
  and the error listener.
\<close>

lemma write_arms:
  assumes "socket s = Some k" and "live k s" and "jobs s = []" and "line_listeners s = []"
    and "wf_state s"
  shows "armed (promises s) k [(EvError, CmdOnError (promises s), True)] (writeAsPromised d h s)"
proof -
  let ?p = "promises s"
  let ?s' = "writeAsPromised d h s"
  from assms(2) have k: "k < length (sockets s)" "\<not> closed (sockets s ! k)"
    by (simp_all add: live_def)
  have un: "filter (mentions ?p) (lst (sockets s ! j)) = []" "cb (sockets s ! j) \<noteq> TlsCb ?p"
    if "j < length (sockets s)" for j
  proof -
    from that have "sockets s ! j \<in> set (sockets s)" by simp
    with wf_unused [OF assms(5,3)] show "filter (mentions ?p) (lst (sockets s ! j)) = []"
      "cb (sockets s ! j) \<noteq> TlsCb ?p"
      unfolding unused_def by blast+
  qed
  have sk: "sockets ?s' ! k = (sockets s ! k)\<lparr>lst := lst (sockets s ! k) @
      [(EvClose, CmdOnClose ?p, True), (EvError, CmdOnError ?p, True)]\<rparr>"
    using assms(1) k
    by (simp add: writeAsPromised_def resolveCommand_def Let_def upd_sock_def once_def)
  have sj: "sockets ?s' ! j = sockets s ! j" if "j \<noteq> k" for j
    using assms(1) that
    by (simp add: writeAsPromised_def resolveCommand_def Let_def upd_sock_def)
  have f: "socket ?s' = Some k" "jobs ?s' = []" "promises ?s' = Suc ?p"
    "line_listeners ?s' = [(?p, h)]" "length (sockets ?s') = length (sockets s)"
    using assms(1,3,4) by (simp_all add: writeAsPromised_def resolveCommand_def Let_def)
  have rest: "(j \<noteq> k \<longrightarrow> filter (mentions ?p) (lst (sockets ?s' ! j)) = [])
      \<and> (\<not> fired (sockets ?s' ! j) \<longrightarrow> cb (sockets ?s' ! j) \<noteq> TlsCb ?p)"
    if "j < length (sockets s)" for j
    using un [OF that] sk sj [of j] by (cases "j = k") simp_all
  have "filter (mentions ?p) (lst (sockets ?s' ! k))
          = [(EvClose, CmdOnClose ?p, True), (EvError, CmdOnError ?p, True)]"
    using un(1) [OF k(1)] by (simp add: sk mentions_def)
  moreover have "\<forall>x\<in>set (lst (sockets ?s' ! k)). kind (fst (snd x)) = fst x"
    using wf_kinds [OF assms(5) k(1)] by (auto simp: sk)
  moreover have "live k ?s'" using k by (simp add: live_def f sk)
  ultimately show ?thesis
    unfolding armed_def using f rest by simp
qed

lemma error_listener_run:
  "kind l = EvError \<Longrightarrow> error_observed s \<Longrightarrow> socket s = Some j \<Longrightarrow>
   snd (run_listener l a s) = None
   \<and> socket (fst (run_listener l a s)) = Some j
   \<and> jobs (fst (run_listener l a s)) = jobs s
   \<and> error_observed (fst (run_listener l a s))"
  by (cases l) (auto simp: cmd_onError_def emit_obs_def settle_def Let_def)

lemma error_list_run:
  assumes "\<forall>x\<in>set ls. kind (fst (snd x)) = EvError" and "error_observed s"
    and "socket s = Some j"
  shows "snd (call_all k ls a s) = None
         \<and> socket (fst (call_all k ls a s)) = Some j
         \<and> jobs (fst (call_all k ls a s)) = jobs s
         \<and> error_observed (fst (call_all k ls a s))"
  using assms
proof (induction ls arbitrary: s)
  case Nil
  then show ?case by simp
next
  case (Cons x ls)
  obtain e l is_once where x: "x = (e, l, is_once)" by (cases x)
  let ?s1 = "if is_once then upd_sock k (\<lambda>x. x\<lparr>lst := remove1 (e, l, True) (lst x)\<rparr>) s else s"
  from Cons.prems x have kl: "kind l = EvError" by simp
  from Cons.prems have s1: "socket ?s1 = Some j" "jobs ?s1 = jobs s" "error_observed ?s1"
    by simp_all
  obtain s2 r where rl: "run_listener l a ?s1 = (s2, r)" by (cases "run_listener l a ?s1")
  with error_listener_run [OF kl s1(3,1), of a] s1
  have r: "r = None" "socket s2 = Some j" "jobs s2 = jobs s" "error_observed s2"
    by simp_all
  from Cons.prems have "\<forall>x\<in>set ls. kind (fst (snd x)) = EvError" by simp
  from Cons.IH [OF this r(4,2)] rl r x show ?case
    by (simp add: Let_def)
qed

lemma error_path:
  assumes arm: "armed c k [(EvError, CmdOnError c, True)] s"
    and obs: "error_observed s"
  shows "calls c (step s (SockError k x)) = calls c s @ [Reject x]"
    and "confined c {} (step s (SockError k x))"
proof -
  let ?Ec = "(EvClose, CmdOnClose c, True)"
  let ?Ee = "(EvError, CmdOnError c, True)"
  let ?E = "\<lambda>j t. filter (mentions c) (lst (sockets t ! j))"
  from arm obtain h where ll: "line_listeners s = [(c, h)]" by (rule armed_handler)
  from arm have k: "k < length (sockets s)" and lv: "live k s" and so: "socket s = Some k"
    and jb: "jobs s = []" and lt: "c < promises s"
    and kinds: "\<forall>x\<in>set (lst (sockets s ! k)). kind (fst (snd x)) = fst x"
    and ent: "?E k s = [?Ec, ?Ee]"
    by (simp_all add: armed_def live_def)
  have "filter (mentions c) (listeners EvError (sockets s ! k)) = [?Ee]"
    by (simp add: listeners_mentions ent)
  then obtain pre post where dec: "listeners EvError (sockets s ! k) = pre @ ?Ee # post"
    and nm: "\<forall>y\<in>set (pre @ post). \<not> mentions c y"
    by (rule single_split)
  have "set (pre @ ?Ee # post) = set (listeners EvError (sockets s ! k))" using dec by simp
  then have mem: "set (pre @ ?Ee # post) = {x \<in> set (lst (sockets s ! k)). fst x = EvError}"
    by (simp add: listeners_def)
  have kall: "kind (fst (snd y)) = EvError" if "y \<in> set (pre @ ?Ee # post)" for y
  proof -
    from that mem have "y \<in> set (lst (sockets s ! k))" "fst y = EvError" by blast+
    with kinds show ?thesis by simp
  qed
  have kpre: "\<forall>y\<in>set pre. kind (fst (snd y)) = EvError"
    and kpost: "\<forall>y\<in>set post. kind (fst (snd y)) = EvError"
    using kall by simp_all
  from kpre have nrpre: "\<forall>y\<in>set pre. fst (snd y) \<noteq> OnReceive" by auto
  from kpost have nrpost: "\<forall>y\<in>set post. fst (snd y) \<noteq> OnReceive" by auto
  obtain s1 r1 where c1: "call_all k pre x s = (s1, r1)" by (cases "call_all k pre x s")
  from error_list_run [OF kpre obs so, of k x] c1 jb
  have r1: "r1 = None" "socket s1 = Some k" "jobs s1 = []" "error_observed s1" by simp_all
  have v1: "same_view c s s1" using call_all_other [of pre c s k x] nm lt nrpre c1 by simp
  have h1: "same_shell s s1" using call_all_shell [of s k pre x] c1 by simp
  have len1: "length (sockets s1) = length (sockets s)" using shell_nth(1) [OF h1] .
  have E1: "?E j s1 = ?E j s" if "j < length (sockets s)" for j
    using view_nth [OF v1 h1 that] .
  have l1: "lines_of c s1 = [(c, h)]" using v1 ll by (simp add: same_view_def lines_of_def)
  define s2 where "s2 = settle c (Reject x) (unlisten_line c
      (upd_sock k (removeListener EvClose (CmdOnClose c))
        (upd_sock k (\<lambda>x. x\<lparr>lst := remove1 ?Ee (lst x)\<rparr>) s1)))"
  have run2: "run_listener (CmdOnError c) x (upd_sock k (\<lambda>x. x\<lparr>lst := remove1 ?Ee (lst x)\<rparr>) s1)
              = (s2, None)"
    using r1 by (simp add: cmd_onError_def s2_def)
  have E2k: "?E k s2 = []"
    using E1 [OF k] ent k len1
    by (simp add: s2_def settle_def upd_sock_nth removeListener_self filter_remove1 remove_last_def)
  have E2j: "?E j s2 = ?E j s" if "j < length (sockets s)" "j \<noteq> k" for j
    using E1 [OF that(1)] that by (simp add: s2_def settle_def upd_sock_nth)
  have c2: "calls c s2 = calls c s @ [Reject x]"
    using v1 by (simp add: s2_def settle_def calls_act same_view_def)
  have l2: "lines_of c s2 = []"
    using l1 by (simp add: s2_def settle_def unlisten_line_self remove_last_def)
  have f2: "socket s2 = Some k" "jobs s2 = []" "error_observed s2"
    "length (sockets s2) = length (sockets s)"
    using r1 len1 by (simp_all add: s2_def settle_def)
  have h2: "same_shell s1 s2"
    unfolding s2_def settle_def
    by (intro same_shell_act same_shell_trans [OF _ same_shell_basic(2)]
          same_shell_trans [OF same_shell_upd same_shell_upd]) simp_all
  have lt2: "c < promises s2" using h1 h2 lt by (simp add: same_shell_def)
  obtain s3 r3 where c3: "call_all k post x s2 = (s3, r3)" by (cases "call_all k post x s2")
  from error_list_run [OF kpost f2(3,1), of k x] c3 f2
  have r3: "r3 = None" "jobs s3 = []" by simp_all
  have v3: "same_view c s2 s3" using call_all_other [of post c s2 k x] nm lt2 nrpost c3 by simp
  have h3: "same_shell s2 s3" using call_all_shell [of s2 k post x] c3 by simp
  have "call_all k (pre @ ?Ee # post) x s = (s3, None)"
    using c1 r1 run2 c3 r3 by (simp add: call_all_append Let_def)
  with dec lv have d: "dispatch (SockError k x) s = s3"
    by (simp add: sock_emit_def Let_def)
  have st: "step s (SockError k x) = s3" using d r3 by (simp add: step_def Let_def)
  have hs: "same_shell s s3" using h1 h2 h3 by (auto intro: same_shell_trans)
  have E3: "?E j s3 = ?E j s2" if "j < length (sockets s)" for j
    using view_nth [OF v3 h3, of j] that f2(4) by simp
  show "calls c (step s (SockError k x)) = calls c s @ [Reject x]"
    using c2 v3 by (simp add: st same_view_def)
  show "confined c {} (step s (SockError k x))"
    unfolding st
  proof (rule inert_confined [where s = s])
    show "c < promises s3" using hs lt by (simp add: same_shell_def)
    show "lines_of c s3 = []" using l2 v3 by (simp add: same_view_def)
    show "jobs s3 = []" by (rule r3)
    show "length (sockets s3) = length (sockets s)" using shell_nth(1) [OF hs] .
    show "?E j s3 = []" if "j < length (sockets s)" for j
      using arm that E3 [OF that] E2k E2j [OF that]
      by (cases "j = k") (simp_all add: armed_def)
    show "cb (sockets s3 ! j) \<noteq> TlsCb c" if "j < length (sockets s)" "\<not> fired (sockets s3 ! j)" for j
    proof -
      from shell_nth(2) [OF hs that(1)] have "fired (sockets s3 ! j) = fired (sockets s ! j)"
        "cb (sockets s3 ! j) = cb (sockets s ! j)"
        by (metis shell_fields)+
      with arm that show ?thesis by (simp add: armed_def)
    qed
  qed
qed

lemma close_path_armed:
  assumes arm: "armed c k es s"
  shows "calls c (step s (SockClose k hadError))
           = calls c s @ [Reject (Error ''Socket has closed unexpectedly'')]"
    and "confined c {} (step s (SockClose k hadError))"
proof -
  let ?Ec = "(EvClose, CmdOnClose c, True)"
  let ?s' = "step s (SockClose k hadError)"
  from arm obtain h where ll: "line_listeners s = [(c, h)]" by (rule armed_handler)
  from arm have k: "k < length (sockets s)" and lv: "live k s"
    and jb: "jobs s = []" and lt: "c < promises s"
    and kinds: "\<forall>x\<in>set (lst (sockets s ! k)). kind (fst (snd x)) = fst x"
    and ent: "filter (mentions c) (lst (sockets s ! k)) = ?Ec # es"
    and es: "es = [] \<or> es = [(EvError, CmdOnError c, True)]"
    by (simp_all add: armed_def live_def)
  from es have "filter (mentions c) (listeners EvClose (sockets s ! k)) = [?Ec]"
    by (auto simp: listeners_mentions ent)
  then obtain pre post where dec: "listeners EvClose (sockets s ! k) = pre @ ?Ec # post"
    and nm: "\<forall>y\<in>set (pre @ post). \<not> mentions c y"
    by (rule single_split)
  from ll have line: "length (lines_of c s) = 1" by (simp add: lines_of_def)
  note cp = close_path [OF lv kinds dec nm ent es line lt jb, where hadError = hadError]
  show "calls c ?s' = calls c s @ [Reject (Error ''Socket has closed unexpectedly'')]"
    by (rule cp(1))
  let ?s0 = "upd_sock k (\<lambda>x. x\<lparr>closed := True\<rparr>) s"
  have len: "length (sockets ?s') = length (sockets s)"
    using shell_nth(1) [OF cp(6)] by simp
  have sh: "shell (sockets ?s' ! j) = shell (sockets ?s0 ! j)" if "j < length (sockets s)" for j
    using shell_nth(2) [OF cp(6), of j] that by simp
  show "confined c {} ?s'"
  proof (rule inert_confined [where s = s])
    show "c < promises ?s'" by (rule cp(7))
    show "lines_of c ?s' = []" by (rule cp(2))
    show "jobs ?s' = []" by (rule cp(3))
    show "length (sockets ?s') = length (sockets s)" by (rule len)
    show "filter (mentions c) (lst (sockets ?s' ! j)) = []"
      if "j < length (sockets s)" "\<not> closed (sockets ?s' ! j)" for j
    proof (cases "j = k")
      case True
      from sh [OF that(1)] have "closed (sockets ?s' ! j) = closed (sockets ?s0 ! j)"
        by (metis shell_fields(3))
      with True k that(2) show ?thesis by (simp add: upd_sock_nth)
    next
      case False
      with arm that(1) have "filter (mentions c) (lst (sockets s ! j)) = []"
        by (simp add: armed_def)
      from cp(5) [OF that(1) False this] show ?thesis .
    qed
    show "cb (sockets ?s' ! j) \<noteq> TlsCb c" if "j < length (sockets s)" "\<not> fired (sockets ?s' ! j)" for j
    proof -
      from sh [OF that(1)] have "fired (sockets ?s' ! j) = fired (sockets ?s0 ! j)"
        "cb (sockets ?s' ! j) = cb (sockets ?s0 ! j)"
        by (metis shell_fields)+
      with arm that show ?thesis by (simp add: armed_def upd_sock_nth split: if_splits)
    qed
  qed
qed

text \<open>
  C1 (as the code has it). Let command \<open>c\<close> be armed on the socket \<open>k\<close> that the channel
  holds, as the only armed command. Each of the three triggers calls exactly one of the
  command's \<open>resolve\<close> and \<open>reject\<close>, once, and no sequence \<open>evs\<close> of later events calls
  either again: the \<open>'close'\<close> event of \<open>k\<close> rejects with \<open>Socket has closed unexpectedly\<close>;
  the \<open>'error'\<close> event of \<open>k\<close> rejects with the error, if the command's error listener is
  registered and the channel's \<open>'error'\<close> event is listened to; a chunk with a terminal
  line \<open>t\<close> after non-terminal lines \<open>pre\<close> resolves with the code of \<open>t\<close>, if the handler
  returns normally on these lines. After the trigger the command has no \<open>'line'\<close>
  listener, no queued job and no listener on a socket that can still emit.
\<close>

theorem settles_exactly_once:
  assumes "armed c k es s"
  shows "(confined c {} (step s (SockClose k hadError))
          \<and> calls c (run (step s (SockClose k hadError)) evs)
               = calls c s @ [Reject (Error ''Socket has closed unexpectedly'')])
     \<and> (es \<noteq> [] \<and> error_observed s \<longrightarrow>
          confined c {} (step s (SockError k x))
          \<and> calls c (run (step s (SockError k x)) evs) = calls c s @ [Reject x])
     \<and> (listeners EvData (sockets s ! k) = [(EvData, OnReceive, False)]
          \<and> (\<forall>l\<in>set pre. \<not> truthy (isLastReply l)) \<and> truthy (isLastReply t)
          \<and> (\<forall>y\<in>set (line_listeners s). quiet (snd y) (pre @ [t])) \<longrightarrow>
          confined c {} (step s (SockData k (pre @ t # post)))
          \<and> calls c (run (step s (SockData k (pre @ t # post))) evs)
               = calls c s @ [Resolve (parseReplyCode t)])"
proof (intro conjI impI)
  have forever: "calls c (run s' evs) = calls c s'" if "confined c {} s'" for s'
    using confined_run [OF that, of evs] by simp
  show c1: "confined c {} (step s (SockClose k hadError))"
    by (rule close_path_armed(2) [OF assms])
  show "calls c (run (step s (SockClose k hadError)) evs)
          = calls c s @ [Reject (Error ''Socket has closed unexpectedly'')]"
    using forever [OF c1] close_path_armed(1) [OF assms, of hadError] by simp
  {
    assume a: "es \<noteq> [] \<and> error_observed s"
    with assms have es: "es = [(EvError, CmdOnError c, True)]" by (auto simp: armed_def)
    from assms have arm: "armed c k [(EvError, CmdOnError c, True)] s" unfolding es .
    from a have obs: "error_observed s" by simp
    show c2: "confined c {} (step s (SockError k x))"
      by (rule error_path(2) [OF arm obs])
    show "calls c (run (step s (SockError k x)) evs) = calls c s @ [Reject x]"
      using forever [OF c2] error_path(1) [OF arm obs, of x] by simp
  }
  {
    assume a: "listeners EvData (sockets s ! k) = [(EvData, OnReceive, False)]
          \<and> (\<forall>l\<in>set pre. \<not> truthy (isLastReply l)) \<and> truthy (isLastReply t)
          \<and> (\<forall>y\<in>set (line_listeners s). quiet (snd y) (pre @ [t]))"
    then have h: "listeners EvData (sockets s ! k) = [(EvData, OnReceive, False)]"
      "\<forall>l\<in>set pre. \<not> truthy (isLastReply l)" "truthy (isLastReply t)"
      "\<forall>y\<in>set (line_listeners s). quiet (snd y) (pre @ [t])"
      by simp_all
    show c3: "confined c {} (step s (SockData k (pre @ t # post)))"
      by (rule line_path(2) [OF assms h])
    show "calls c (run (step s (SockData k (pre @ t # post))) evs)
            = calls c s @ [Resolve (parseReplyCode t)]"
      using forever [OF c3] line_path(1) [OF assms h, of post] by simp
  }
qed

theorem settles_exactly_once_witness:
  "calls 1 (run (step written (SockClose 0 False))
              [SockError 0 (Error ''late''), SockData 0 [''250 OK''], SockClose 0 False])
     = [Reject (Error ''Socket has closed unexpectedly'')]
   \<and> calls 1 (run (step written (SockError 0 (Error ''ECONNRESET'')))
                [SockClose 0 True, SockData 0 [''250 OK'']])
       = [Reject (Error ''ECONNRESET'')]
   \<and> calls 1 (run (step written (SockData 0 ([''250-SIZE''] @ ''250 OK'' # [])))
                [SockClose 0 False, SockError 0 (Error ''late'')])
       = [Resolve (Str ''250'')]"
proof -
  have a: "armed 1 0 [(EvError, CmdOnError 1, True)] written" by code_simp
  have e: "[(EvError, CmdOnError 1, True)] \<noteq> [] \<and> error_observed written" by code_simp
  have l: "listeners EvData (sockets written ! 0) = [(EvData, OnReceive, False)]
          \<and> (\<forall>l\<in>set [''250-SIZE'']. \<not> truthy (isLastReply l)) \<and> truthy (isLastReply ''250 OK'')
          \<and> (\<forall>y\<in>set (line_listeners written). quiet (snd y) ([''250-SIZE''] @ [''250 OK'']))"
    by code_simp
  have c: "calls 1 written = []" "parseReplyCode ''250 OK'' = Str ''250''" by code_simp+
  from settles_exactly_once [OF a, of False
      "[SockError 0 (Error ''late''), SockData 0 [''250 OK''], SockClose 0 False]"
      "Error ''late''" "[''250-SIZE'']" "''250 OK''" "[]"] c
  have "calls 1 (run (step written (SockClose 0 False))
              [SockError 0 (Error ''late''), SockData 0 [''250 OK''], SockClose 0 False])
     = [Reject (Error ''Socket has closed unexpectedly'')]"
    by simp
  moreover from settles_exactly_once [OF a, of False
      "[SockClose 0 True, SockData 0 [''250 OK'']]"
      "Error ''ECONNRESET''" "[''250-SIZE'']" "''250 OK''" "[]"] e c
  have "calls 1 (run (step written (SockError 0 (Error ''ECONNRESET'')))
                [SockClose 0 True, SockData 0 [''250 OK'']])
       = [Reject (Error ''ECONNRESET'')]"
    by simp
  moreover from settles_exactly_once [OF a, of False
      "[SockClose 0 False, SockError 0 (Error ''late'')]"
      "Error ''late''" "[''250-SIZE'']" "''250 OK''" "[]"] l c
  have "calls 1 (run (step written (SockData 0 ([''250-SIZE''] @ ''250 OK'' # [])))
                [SockClose 0 False, SockError 0 (Error ''late'')])
       = [Resolve (Str ''250'')]"
    by simp
  ultimately show ?thesis by simp
qed

text \<open>
  C1 as stated fails: settling does not always detach every listener that arming
  installed. After \<open>write\<close>, \<open>close()\<close> and the socket's \<open>'close'\<close> event, the promise is
  rejected through the close path, and the command's error listener is still registered
  on the socket (\<open>_socket\<close> was \<open>null\<close> when \<open>onClose\<close> ran).
\<close>

theorem settle_leaves_listener_counterexample:
  "calls 1 closing = [Reject (Error ''Socket has closed unexpectedly'')]
   \<and> (EvError, CmdOnError 1, True) \<in> set (lst (sockets closing ! 0))"
  by code_simp

section \<open>Command correlation: a failing handler\<close>

text \<open>
  C2, at the failing input. The handler throws on the continuation line and the terminal
  line arrives in the same chunk: both lines are passed to the handler, in order, each
  with its \<open>isLast\<close> and \<open>code\<close>, before \<open>resolve\<close> is called; but \<open>resolve('250')\<close> is
  called one microtask before \<open>reject\<close> is called with the handler's error, so the
  promise resolves with the reply code. When the same two lines arrive in two chunks,
  \<open>reject\<close> comes first and the promise rejects with the handler's error.
\<close>

theorem handler_failure_then_resolve:
  "trace one_chunk = trace ehlo @
     [Emit ObsReceive, Emit (ObsReply ''250-PIPELINING''), Emit (ObsReply ''250 HELP''),
      HandlerCall 1 ''250-PIPELINING'' (Bool False) (Str ''250''),
      HandlerCall 1 ''250 HELP'' (Bool True) (Str ''250''),
      Settle 1 (Resolve (Str ''250'')), Settle 1 (Reject (Error ''boom''))]
   \<and> fussy ''250-PIPELINING'' (Bool False) (Str ''250'') = Some (Error ''boom'')
   \<and> promise_state 1 ehlo = None
   \<and> promise_state 1 one_chunk = Some (Resolve (Str ''250''))
   \<and> promise_state 1 two_chunks = Some (Reject (Error ''boom''))
   \<and> calls 1 two_chunks = [Reject (Error ''boom''), Resolve (Str ''250'')]"
  by code_simp

end
